theory Spec2Isabelle
  imports Complex_Main "HOL-Library.Sublist" "HOL-Library.AList"
begin

section \<open>The file system the program runs on\<close>

text \<open>
  The program is written against Node's \<^verbatim>\<open>node:fs/promises\<close> and \<^verbatim>\<open>node:path\<close>.
  Its state is the file system, so the model starts with one: a tree of entries,
  addressed by absolute paths, and the handful of primitives the source calls
  (\<^verbatim>\<open>stat\<close>, \<^verbatim>\<open>access\<close>, \<^verbatim>\<open>readdir\<close>, \<^verbatim>\<open>mkdir\<close>, \<^verbatim>\<open>rm\<close>, \<^verbatim>\<open>copyFile\<close>, \<^verbatim>\<open>utimes\<close>).

  A path is the list of its components from the file system root, so that
  \<^verbatim>\<open>join(dir, name)\<close> appends a component and \<^verbatim>\<open>dirname\<close> drops the last one.
  Entry names are taken as \<^verbatim>\<open>readdir\<close> returns them: no separators, no \<^verbatim>\<open>.\<close> or \<^verbatim>\<open>..\<close>.
  Time stamps are kept in nanoseconds, as the file system stores them;
  \<^verbatim>\<open>mtimeMs\<close> is the same instant in (fractional) milliseconds, as a double, and a
  \<^verbatim>\<open>Date\<close> is a whole number of milliseconds.

  The two access bits are what \<^verbatim>\<open>access(R_OK)\<close> and \<^verbatim>\<open>access(W_OK)\<close> answer, and the
  primitives are refused with \<^verbatim>\<open>EACCES\<close> where the bits say so: listing a directory
  needs its read bit, creating or removing an entry the write bit of the directory
  that holds it, reading a file its read bit and overwriting one its write bit. Every
  directory is taken to be searchable, and every entry to belong to the user.

  Two things that the platform does on its own are left out: it moves the access time
  of what is read or listed, and the modification time of a directory in which an
  entry is created or removed. The samples below show the states as the model computes
  them, without these moves; the general statements say nothing that depends on them.
\<close>

type_synonym name = string
type_synonym path = "name list"
type_synonym content = string

record attrs =
  atimeNs :: int
  mtimeNs :: int
  readable :: bool
  writable :: bool

text \<open>
  \<open>Other\<close> stands for every entry that is neither a regular file nor a directory to
  \<^verbatim>\<open>Dirent.isFile()/isDirectory()\<close> and that \<^verbatim>\<open>stat\<close> does not report as a directory: a
  socket, a device, a FIFO, a symbolic link to a regular file. Its second field is what
  opening it for reading yields: the bytes behind a link or a device, nothing for a socket.
\<close>

datatype node =
    File attrs content
  | Dir attrs "(name \<times> node) list"
  | Other attrs "content option"

datatype kind = IsFile | IsDirectory | IsOther

datatype error =
    ENOENT | ENOTDIR | EISDIR | EEXIST | EACCES | ENXIO | EBUSY
  | E_IN_DIR_ERROR | E_IN_DIR_ACCESS | E_OUT_MISMATCH | E_OUT_DIR_ACCESS

record fsys =
  root :: node
  now :: int

fun kind_of :: "node \<Rightarrow> kind" where
  "kind_of (File a c) = IsFile"
| "kind_of (Dir a es) = IsDirectory"
| "kind_of (Other a c) = IsOther"

fun attrs_of :: "node \<Rightarrow> attrs" where
  "attrs_of (File a c) = a"
| "attrs_of (Dir a es) = a"
| "attrs_of (Other a c) = a"

fun set_attrs :: "attrs \<Rightarrow> node \<Rightarrow> node" where
  "set_attrs a (File _ c) = File a c"
| "set_attrs a (Dir _ es) = Dir a es"
| "set_attrs a (Other _ c) = Other a c"

fun bytes_of :: "node \<Rightarrow> content option" where
  "bytes_of (File a c) = Some c"
| "bytes_of (Dir a es) = None"
| "bytes_of (Other a c) = c"

definition isFile :: "kind \<Rightarrow> bool" where
  "isFile k = (k = IsFile)"

definition isDirectory :: "kind \<Rightarrow> bool" where
  "isDirectory k = (k = IsDirectory)"

subsection \<open>Numbers\<close>

text \<open>
  A JavaScript number and a C \<^verbatim>\<open>double\<close> are IEEE 754 binary64 values. Such a value is
  modelled by the rational number it denotes, and \<open>fl x\<close> is the value nearest to \<open>x\<close>, a
  tie going to the even significand: what an arithmetic operation of the platform
  returns when its exact result is \<open>x\<close>. (The numbers of this program are times, far
  from overflow and from the subnormal range, which \<open>fl\<close> does not model.)

  \<open>exponent x\<close> is the \<open>e\<close> with \<open>2 ^ e \<le> x < 2 ^ (e + 1)\<close> for a positive \<open>x\<close>, and a double has
  53 significant bits.
\<close>

fun log2n :: "nat \<Rightarrow> nat" where
  "log2n n = (if n < 2 then 0 else Suc (log2n (n div 2)))"

declare log2n.simps [simp del]

definition exponent :: "rat \<Rightarrow> int" where
  "exponent x =
     (if 1 \<le> x then int (log2n (nat \<lfloor>x\<rfloor>))
      else - int (Suc (log2n (nat (\<lceil>1 / x\<rceil> - 1)))))"

definition pow2 :: "int \<Rightarrow> rat" where
  "pow2 e = (if 0 \<le> e then 2 ^ nat e else 1 / 2 ^ nat (- e))"

definition round_even :: "rat \<Rightarrow> int" where
  "round_even x =
     (let n = \<lfloor>x\<rfloor>; r = x - of_int n
      in if r < 1 / 2 then n else if 1 / 2 < r then n + 1 else if even n then n else n + 1)"

definition fl :: "rat \<Rightarrow> rat" where
  "fl x =
     (if x = 0 then 0
      else (let ulp = pow2 (exponent \<bar>x\<bar> - 52) in of_int (round_even (x / ulp)) * ulp))"

text \<open>The conversion of a double to an integer in C, and C's \<^verbatim>\<open>%\<close>: both towards zero.\<close>

definition C_trunc :: "rat \<Rightarrow> int" where
  "C_trunc x = (if x < 0 then - \<lfloor>- x\<rfloor> else \<lfloor>x\<rfloor>)"

definition C_rem :: "int \<Rightarrow> int \<Rightarrow> int" where
  "C_rem a b = a - b * C_trunc (of_int a / of_int b)"

subsection \<open>Paths\<close>

definition join :: "path \<Rightarrow> name \<Rightarrow> path" where
  "join dir nm = dir @ [nm]"

definition join_path :: "path \<Rightarrow> path \<Rightarrow> path" where
  "join_path dir rel = dir @ rel"

definition dirname :: "path \<Rightarrow> path" where
  "dirname p = butlast p"

text \<open>
  \<^verbatim>\<open>String.prototype.replace(pattern, '')\<close> with a string pattern removes the first
  occurrence of the pattern and leaves the string alone when there is none.
\<close>

fun replace_first :: "path \<Rightarrow> path \<Rightarrow> path" where
  "replace_first pat [] = []"
| "replace_first pat (x # xs) =
     (if prefix pat (x # xs) then drop (length pat) (x # xs)
      else x # replace_first pat xs)"

subsection \<open>The tree\<close>

fun lookup :: "node \<Rightarrow> path \<Rightarrow> node option" where
  "lookup n [] = Some n"
| "lookup (Dir a es) (x # p) =
     (case map_of es x of None \<Rightarrow> None | Some c \<Rightarrow> lookup c p)"
| "lookup (File a c) (x # p) = None"
| "lookup (Other a c) (x # p) = None"

text \<open>
  \<open>put p v t\<close> stores \<open>v\<close> at \<open>p\<close> (\<open>None\<close> removes the entry with everything below
  it). A new entry goes to the end of its directory's listing; an existing one keeps
  its place. The parent of \<open>p\<close> has to be a directory, which the callers check.
\<close>

fun put :: "path \<Rightarrow> node option \<Rightarrow> node \<Rightarrow> node" where
  "put [] v t = (case v of None \<Rightarrow> t | Some m \<Rightarrow> m)"
| "put [x] v (Dir a es) =
     Dir a (case v of None \<Rightarrow> AList.delete x es | Some m \<Rightarrow> AList.update x m es)"
| "put (x # y # p) v (Dir a es) =
     (case map_of es x of
        None \<Rightarrow> Dir a es
      | Some c \<Rightarrow> Dir a (AList.update x (put (y # p) v c) es))"
| "put (x # p) v (File a c) = File a c"
| "put (x # p) v (Other a c) = Other a c"

text \<open>
  \<^verbatim>\<open>mkdir(path, { recursive: true })\<close>: creates what is missing on the way, each
  directory in one that can be written to.
\<close>

fun mkdirp :: "attrs \<Rightarrow> path \<Rightarrow> node \<Rightarrow> error + node" where
  "mkdirp fresh [] (Dir a es) = Inr (Dir a es)"
| "mkdirp fresh [] (File a c) = Inl EEXIST"
| "mkdirp fresh [] (Other a c) = Inl EEXIST"
| "mkdirp fresh (x # p) (Dir a es) =
     (if map_of es x = None \<and> \<not> writable a then Inl EACCES
      else (case mkdirp fresh p (case map_of es x of None \<Rightarrow> Dir fresh [] | Some c \<Rightarrow> c) of
        Inl e \<Rightarrow> Inl e
      | Inr c' \<Rightarrow> Inr (Dir a (AList.update x c' es))))"
| "mkdirp fresh (x # p) (File a c) = Inl ENOTDIR"
| "mkdirp fresh (x # p) (Other a c) = Inl ENOTDIR"

subsection \<open>The primitives of \<^verbatim>\<open>node:fs/promises\<close>\<close>

text \<open>The \<^verbatim>\<open>Stats\<close> object: the fields and methods the program reads.\<close>

record Stats =
  st_kind :: kind
  atimeMs :: rat
  mtimeMs :: rat

text \<open>
  The time fields of \<^verbatim>\<open>Stats\<close> are doubles. Node computes them from the seconds and
  nanoseconds that \<^verbatim>\<open>stat(2)\<close> reports: \<^verbatim>\<open>msFromTimeSpec(sec, nsec)\<close> is
  \<^verbatim>\<open>sec * 1000 + nsec / 1e6\<close>.
\<close>

definition msFromTimeSpec :: "int \<Rightarrow> int \<Rightarrow> rat" where
  "msFromTimeSpec sec nsec = fl (fl (of_int sec * 1000) + fl (of_int nsec / 1000000))"

definition ms_of_ns :: "int \<Rightarrow> rat" where
  "ms_of_ns t = msFromTimeSpec (t div 1000000000) (t mod 1000000000)"

text \<open>\<^verbatim>\<open>Math.round\<close>: to the nearest integer, halves upwards.\<close>

definition Math_round :: "rat \<Rightarrow> int" where
  "Math_round x = \<lfloor>x + 1 / 2\<rfloor>"

text \<open>
  \<^verbatim>\<open>Stats.atime\<close> and \<^verbatim>\<open>Stats.mtime\<close> are \<^verbatim>\<open>Date\<close>s, whole milliseconds, which Node
  makes with \<^verbatim>\<open>new Date(Math.round(ms))\<close>.
\<close>

definition atime :: "Stats \<Rightarrow> int" where
  "atime s = Math_round (atimeMs s)"

definition mtime :: "Stats \<Rightarrow> int" where
  "mtime s = Math_round (mtimeMs s)"

definition stats_of :: "node \<Rightarrow> Stats" where
  "stats_of n =
     \<lparr> st_kind = kind_of n,
       atimeMs = ms_of_ns (atimeNs (attrs_of n)),
       mtimeMs = ms_of_ns (mtimeNs (attrs_of n)) \<rparr>"

definition fs_stat :: "fsys \<Rightarrow> path \<Rightarrow> error + Stats" where
  "fs_stat fs p =
     (case lookup (root fs) p of None \<Rightarrow> Inl ENOENT | Some n \<Rightarrow> Inr (stats_of n))"

text \<open>\<^verbatim>\<open>access(path, mode)\<close>, with the mode as the pair of bits asked for.\<close>

definition fs_access :: "fsys \<Rightarrow> path \<Rightarrow> bool \<Rightarrow> bool \<Rightarrow> error + unit" where
  "fs_access fs p r_ok w_ok =
     (case lookup (root fs) p of
        None \<Rightarrow> Inl ENOENT
      | Some n \<Rightarrow>
          if (if r_ok then readable (attrs_of n) else True) \<and>
             (if w_ok then writable (attrs_of n) else True)
          then Inr () else Inl EACCES)"

text \<open>
  \<^verbatim>\<open>readdir(path, { withFileTypes: true })\<close>: the entries in listing order. A
  directory has one entry per name; should a listing of the model repeat a name, the
  first entry is the one that \<open>lookup\<close> finds and the one that is listed.
\<close>

definition fs_readdir :: "fsys \<Rightarrow> path \<Rightarrow> error + (name \<times> kind) list" where
  "fs_readdir fs p =
     (case lookup (root fs) p of
        None \<Rightarrow> Inl ENOENT
      | Some (Dir a es) \<Rightarrow>
          if readable a then Inr (map (\<lambda>e. (fst e, kind_of (snd e))) (AList.clearjunk es))
          else Inl EACCES
      | Some (File a c) \<Rightarrow> Inl ENOTDIR
      | Some (Other a c) \<Rightarrow> Inl ENOTDIR)"

definition fresh_attrs :: "fsys \<Rightarrow> attrs" where
  "fresh_attrs fs = \<lparr> atimeNs = now fs, mtimeNs = now fs, readable = True, writable = True \<rparr>"

definition fs_mkdir :: "fsys \<Rightarrow> path \<Rightarrow> error + fsys" where
  "fs_mkdir fs p =
     (case mkdirp (fresh_attrs fs) p (root fs) of
        Inl e \<Rightarrow> Inl e
      | Inr t \<Rightarrow> Inr (fs\<lparr>root := t\<rparr>))"

text \<open>
  \<^verbatim>\<open>rm(path)\<close> and \<^verbatim>\<open>rm(path, { recursive: true })\<close>: without \<^verbatim>\<open>force\<close> a missing path
  is an error, and without \<^verbatim>\<open>recursive\<close> a directory is refused. The entry is removed
  from the directory that holds it, which has to be writable. A directory that is not
  empty is listed and emptied first, for which it has to be readable and writable,
  and so on below it: that is \<open>removable\<close>. A refused \<^verbatim>\<open>rm\<close> is an error, whatever it
  has removed before.
\<close>

function removable :: "node \<Rightarrow> bool" where
  "removable (Dir a es) =
     (es = [] \<or> readable a \<and> writable a \<and> (\<forall>e \<in> set (AList.clearjunk es). removable (snd e)))"
| "removable (File a c) = True"
| "removable (Other a c) = True"
  by pat_completeness auto

termination
proof (relation "measure size")
  fix a :: attrs and es :: "(name \<times> node) list" and e
  assume "e \<in> set (AList.clearjunk es)"
  then have "map_of (AList.clearjunk es) (fst e) = Some (snd e)"
    by (simp add: distinct_clearjunk)
  then have "map_of es (fst e) = Some (snd e)"
    by (simp add: map_of_clearjunk)
  then have "(fst e, snd e) \<in> set es"
    by (rule map_of_SomeD)
  then have "size (snd e) < Suc (size_list (size_prod (\<lambda>x. 0) size) es)"
    by (induction es) auto
  then show "(snd e, Dir a es) \<in> measure size"
    by simp
qed simp

definition fs_rm :: "fsys \<Rightarrow> path \<Rightarrow> bool \<Rightarrow> error + fsys" where
  "fs_rm fs p recursive =
     (case lookup (root fs) p of
        None \<Rightarrow> Inl ENOENT
      | Some n \<Rightarrow>
          if p = [] then Inl EBUSY
          else if kind_of n = IsDirectory \<and> \<not> recursive then Inl EISDIR
          else (case lookup (root fs) (dirname p) of
            None \<Rightarrow> Inl ENOENT
          | Some d \<Rightarrow>
              if \<not> writable (attrs_of d) \<or> \<not> removable n then Inl EACCES
              else Inr (fs\<lparr>root := put p None (root fs)\<rparr>)))"

text \<open>
  \<^verbatim>\<open>copyFile(src, dest, COPYFILE_FICLONE)\<close>: the destination becomes a regular file
  with the bytes and the mode of the source, written now. The source is opened for
  reading; the destination is overwritten when it exists and created in its directory
  otherwise. Copying a file onto itself does nothing. Writing into an existing special
  entry is not modelled and is refused.
\<close>

definition fs_copyFile :: "fsys \<Rightarrow> path \<Rightarrow> path \<Rightarrow> error + fsys" where
  "fs_copyFile fs src dest =
     (case lookup (root fs) src of
        None \<Rightarrow> Inl ENOENT
      | Some s \<Rightarrow>
          if \<not> readable (attrs_of s) then Inl EACCES
          else if kind_of s = IsDirectory then Inl EISDIR
          else (case bytes_of s of
            None \<Rightarrow> Inl ENXIO
          | Some bytes \<Rightarrow>
              if src = dest then Inr fs
              else if dest = [] then Inl EISDIR
              else (case lookup (root fs) (dirname dest) of
                None \<Rightarrow> Inl ENOENT
              | Some d \<Rightarrow>
                  if kind_of d \<noteq> IsDirectory then Inl ENOTDIR
                  else (case lookup (root fs) dest of
                    Some (Dir a es) \<Rightarrow> Inl EISDIR
                  | Some (Other a c) \<Rightarrow> Inl ENXIO
                  | t \<Rightarrow>
                      if \<not> writable (attrs_of (case t of None \<Rightarrow> d | Some f \<Rightarrow> f))
                      then Inl EACCES
                      else Inr (fs\<lparr>root :=
                        put dest
                          (Some (File ((attrs_of s)\<lparr>atimeNs := now fs, mtimeNs := now fs\<rparr>) bytes))
                          (root fs)\<rparr>)))))"

text \<open>
  \<^verbatim>\<open>utimes(path, atime, mtime)\<close> with two \<^verbatim>\<open>Date\<close>s. Node passes each to libuv as a
  number of seconds, \<^verbatim>\<open>toUnixTimestamp(time)\<close> being \<^verbatim>\<open>time.getTime() / 1000\<close>, and libuv
  makes the \<^verbatim>\<open>timespec\<close> of \<^verbatim>\<open>utimensat(2)\<close> from it in \<^verbatim>\<open>uv__fs_to_timespec\<close>:

  \<^verbatim>\<open>ts.tv_sec = time; ts.tv_nsec = (time - ts.tv_sec) * 1e9;\<close>
  \<^verbatim>\<open>ts.tv_nsec -= ts.tv_nsec % 1000;\<close>
  \<^verbatim>\<open>if (ts.tv_nsec < 0) { ts.tv_nsec += 1e9; ts.tv_sec -= 1; }\<close>

  \<open>utimes_ns\<close> is the instant that the file system then stores for a \<^verbatim>\<open>Date\<close>, in
  nanoseconds.
\<close>

definition toUnixTimestamp :: "int \<Rightarrow> rat" where
  "toUnixTimestamp time = fl (of_int time / 1000)"

definition uv_fs_to_timespec :: "rat \<Rightarrow> int \<times> int" where
  "uv_fs_to_timespec time =
     (let tv_sec = C_trunc time;
          tv_nsec = C_trunc (fl (fl (time - of_int tv_sec) * 1000000000));
          tv_nsec = tv_nsec - C_rem tv_nsec 1000
      in if tv_nsec < 0 then (tv_sec - 1, tv_nsec + 1000000000) else (tv_sec, tv_nsec))"

definition utimes_ns :: "int \<Rightarrow> int" where
  "utimes_ns date =
     (let ts = uv_fs_to_timespec (toUnixTimestamp date) in fst ts * 1000000000 + snd ts)"

definition fs_utimes :: "fsys \<Rightarrow> path \<Rightarrow> int \<Rightarrow> int \<Rightarrow> error + fsys" where
  "fs_utimes fs p a m =
     (case lookup (root fs) p of
        None \<Rightarrow> Inl ENOENT
      | Some n \<Rightarrow>
          Inr (fs\<lparr>root :=
            put p (Some (set_attrs ((attrs_of n)\<lparr>atimeNs := utimes_ns a, mtimeNs := utimes_ns m\<rparr>) n))
              (root fs)\<rparr>))"

section \<open>FsHelper\<close>

definition pathExists :: "fsys \<Rightarrow> path \<Rightarrow> bool" where
  "pathExists fs filePath = (case fs_stat fs filePath of Inl e \<Rightarrow> False | Inr s \<Rightarrow> True)"

definition canRead :: "fsys \<Rightarrow> path \<Rightarrow> bool" where
  "canRead fs filePath =
     (if \<not> pathExists fs filePath then False
      else (case fs_access fs filePath True False of Inl e \<Rightarrow> False | Inr u \<Rightarrow> True))"

definition canWrite :: "fsys \<Rightarrow> path \<Rightarrow> bool" where
  "canWrite fs filePath =
     (if \<not> pathExists fs filePath then False
      else (case fs_access fs filePath False True of Inl e \<Rightarrow> False | Inr u \<Rightarrow> True))"

definition ensureDir :: "fsys \<Rightarrow> path \<Rightarrow> error + fsys" where
  "ensureDir fs dirPath = (if canRead fs dirPath then Inr fs else fs_mkdir fs dirPath)"

text \<open>
  The test of \<open>copyFile\<close> on an existing target:
  \<^verbatim>\<open>Math.abs(Math.round(sourceInfo.mtimeMs - targetInfo.mtimeMs)) === 0\<close>, the
  subtraction being one of doubles.
\<close>

definition delta :: "Stats \<Rightarrow> Stats \<Rightarrow> int" where
  "delta sourceInfo targetInfo = \<bar>Math_round (fl (mtimeMs sourceInfo - mtimeMs targetInfo))\<bar>"

definition copyFile :: "fsys \<Rightarrow> path \<Rightarrow> path \<Rightarrow> error + fsys" where
  "copyFile fs source target =
     (case ensureDir fs (dirname target) of
        Inl e \<Rightarrow> Inl e
      | Inr fs1 \<Rightarrow>
          (case (if pathExists fs1 target
                 then (case fs_stat fs1 source of
                         Inl e \<Rightarrow> Inl e
                       | Inr sourceInfo \<Rightarrow>
                           (case fs_stat fs1 target of
                              Inl e \<Rightarrow> Inl e
                            | Inr targetInfo \<Rightarrow> Inr (delta sourceInfo targetInfo = 0)))
                 else Inr False) of
             Inl e \<Rightarrow> Inl e
           | Inr True \<Rightarrow> Inr fs1
           | Inr False \<Rightarrow>
               (case fs_copyFile fs1 source target of
                  Inl e \<Rightarrow> Inl e
                | Inr fs2 \<Rightarrow>
                    (case fs_stat fs2 source of
                       Inl e \<Rightarrow> Inl e
                     | Inr sourceInfo \<Rightarrow>
                         fs_utimes fs2 target (atime sourceInfo) (mtime sourceInfo)))))"

text \<open>
  \<open>copyDirectory\<close> calls itself for every subdirectory. Nothing in the source bounds
  that recursion (a target inside its own source feeds it for ever), so the model
  counts calls down: \<open>None\<close> is a run that has not returned within \<open>n\<close> nested calls.
\<close>

fun copyDirectory :: "nat \<Rightarrow> fsys \<Rightarrow> path \<Rightarrow> path \<Rightarrow> (error + fsys) option"
and copyDirectory_entries ::
  "nat \<Rightarrow> fsys \<Rightarrow> path \<Rightarrow> path \<Rightarrow> (name \<times> kind) list \<Rightarrow> (error + fsys) option"
where
  "copyDirectory 0 fs source target = None"
| "copyDirectory (Suc n) fs source target =
     (case ensureDir fs target of
        Inl e \<Rightarrow> Some (Inl e)
      | Inr fs1 \<Rightarrow>
          (case fs_readdir fs1 source of
             Inl e \<Rightarrow> Some (Inl e)
           | Inr entries \<Rightarrow> copyDirectory_entries n fs1 source target entries))"
| "copyDirectory_entries n fs source target [] = Some (Inr fs)"
| "copyDirectory_entries n fs source target (entry # entries) =
     (let srcFile = join source (fst entry);
          destFile = join target (fst entry)
      in case fs_stat fs srcFile of
           Inl e \<Rightarrow> Some (Inl e)
         | Inr srcStat \<Rightarrow>
             (case (if isDirectory (st_kind srcStat)
                    then copyDirectory n fs srcFile destFile
                    else Some (copyFile fs srcFile destFile)) of
                None \<Rightarrow> None
              | Some (Inl e) \<Rightarrow> Some (Inl e)
              | Some (Inr fs') \<Rightarrow> copyDirectory_entries n fs' source target entries))"

section \<open>NaiveSync\<close>

record NaiveSync =
  naive_inPath :: path
  naive_outPath :: path
  naive_aborted :: bool

definition new_NaiveSync :: "path \<Rightarrow> path \<Rightarrow> NaiveSync" where
  "new_NaiveSync inP outP =
     \<lparr> naive_inPath = inP, naive_outPath = outP, naive_aborted = False \<rparr>"

definition NaiveSync_abort :: "NaiveSync \<Rightarrow> NaiveSync" where
  "NaiveSync_abort this = this\<lparr>naive_aborted := True\<rparr>"

text \<open>
  \<open>_cleanupOutPath\<close>, with the body of its \<^verbatim>\<open>for\<close> loop as the second function. It
  calls itself for every kept directory, on the file system as the deletions so far
  have left it, so it is counted down like \<open>copyDirectory\<close>.
\<close>

definition cleanup_inDir :: "NaiveSync \<Rightarrow> path \<Rightarrow> path" where
  "cleanup_inDir this outDir =
     (if outDir = naive_outPath this then naive_inPath this
      else (let relative = replace_first (naive_outPath this) outDir
            in join_path (naive_inPath this) relative))"

fun cleanupOutPath :: "nat \<Rightarrow> NaiveSync \<Rightarrow> fsys \<Rightarrow> path \<Rightarrow> (error + fsys) option"
and cleanupOutPath_files ::
  "nat \<Rightarrow> NaiveSync \<Rightarrow> fsys \<Rightarrow> path \<Rightarrow> path \<Rightarrow> (name \<times> kind) list \<Rightarrow> (error + fsys) option"
where
  "cleanupOutPath 0 this fs outDir = None"
| "cleanupOutPath (Suc n) this fs outDir =
     (case fs_readdir fs outDir of
        Inl e \<Rightarrow> Some (Inl e)
      | Inr files \<Rightarrow> cleanupOutPath_files n this fs outDir (cleanup_inDir this outDir) files)"
| "cleanupOutPath_files n this fs outDir inDir [] = Some (Inr fs)"
| "cleanupOutPath_files n this fs outDir inDir (file # files) =
     (let src = join inDir (fst file);
          target = join outDir (fst file);
          sourceExists = pathExists fs src
      in case (if sourceExists \<and> isFile (snd file) then Some (Inr fs)
               else if sourceExists \<and> isDirectory (snd file) then cleanupOutPath n this fs target
               else if isDirectory (snd file) then Some (fs_rm fs target True)
               else if isFile (snd file) then Some (fs_rm fs target False)
               else Some (Inr fs)) of
           None \<Rightarrow> None
         | Some (Inl e) \<Rightarrow> Some (Inl e)
         | Some (Inr fs') \<Rightarrow> cleanupOutPath_files n this fs' outDir inDir files)"

text \<open>The \<^verbatim>\<open>for\<close> loop of \<open>run\<close> over the top-level entries of the source folder.\<close>

fun run_files :: "nat \<Rightarrow> NaiveSync \<Rightarrow> fsys \<Rightarrow> (name \<times> kind) list \<Rightarrow> (error + fsys) option" where
  "run_files n this fs [] = Some (Inr fs)"
| "run_files n this fs (file # files) =
     (let src = join (naive_inPath this) (fst file);
          target = join (naive_outPath this) (fst file)
      in case (if isDirectory (snd file) then copyDirectory n fs src target
               else if isFile (snd file) then Some (copyFile fs src target)
               else Some (Inr fs)) of
           None \<Rightarrow> None
         | Some (Inl e) \<Rightarrow> Some (Inl e)
         | Some (Inr fs') \<Rightarrow> run_files n this fs' files)"

definition NaiveSync_run :: "nat \<Rightarrow> NaiveSync \<Rightarrow> fsys \<Rightarrow> (error + fsys) option" where
  "NaiveSync_run n this fs =
     (case cleanupOutPath n this fs (naive_outPath this) of
        None \<Rightarrow> None
      | Some (Inl e) \<Rightarrow> Some (Inl e)
      | Some (Inr fs1) \<Rightarrow>
          (case fs_readdir fs1 (naive_inPath this) of
             Inl e \<Rightarrow> Some (Inl e)
           | Inr files \<Rightarrow> run_files n this fs1 files))"

section \<open>ActiveSync\<close>

text \<open>
  The watcher is chokidar's \<^verbatim>\<open>FSWatcher\<close>, of which the class uses the listener table
  and \<^verbatim>\<open>close\<close>. An event reaches a handler only through a watcher that has the
  handler registered.
\<close>

datatype event_name = E_add | E_addDir | E_change | E_unlink | E_unlinkDir | E_ready

record FSWatcher =
  listeners :: "event_name list"
  closed :: bool

record ActiveSync =
  active_inPath :: path
  active_outPath :: path
  ready :: bool
  watcher :: "FSWatcher option"

definition new_ActiveSync :: "path \<Rightarrow> path \<Rightarrow> ActiveSync" where
  "new_ActiveSync inP outP =
     \<lparr> active_inPath = inP, active_outPath = outP, ready = False, watcher = None \<rparr>"

definition ActiveSync_run :: "ActiveSync \<Rightarrow> ActiveSync" where
  "ActiveSync_run this =
     this\<lparr>watcher :=
       Some \<lparr> listeners = [E_add, E_addDir, E_change, E_unlink, E_unlinkDir, E_ready],
              closed = False \<rparr>\<rparr>"

definition ActiveSync_abort :: "ActiveSync \<Rightarrow> ActiveSync" where
  "ActiveSync_abort this =
     (case watcher this of
        None \<Rightarrow> this
      | Some w \<Rightarrow>
          this\<lparr>watcher :=
            Some (w\<lparr>closed := True,
                    listeners :=
                      filter (\<lambda>e. e \<notin> {E_add, E_addDir, E_change, E_unlink, E_unlinkDir})
                        (listeners w)\<rparr>)\<rparr>)"

definition resolveSource :: "ActiveSync \<Rightarrow> path \<Rightarrow> path" where
  "resolveSource this p = replace_first (active_inPath this) p"

definition resolveTarget :: "ActiveSync \<Rightarrow> path \<Rightarrow> path" where
  "resolveTarget this p =
     (let relativeSourcePath = resolveSource this p
      in join_path (active_outPath this) relativeSourcePath)"

definition addHandler :: "ActiveSync \<Rightarrow> fsys \<Rightarrow> path \<Rightarrow> error + fsys" where
  "addHandler this fs p =
     (if \<not> ready this then Inr fs
      else if \<not> canRead fs p then Inr fs
      else copyFile fs p (resolveTarget this p))"

definition addDirHandler :: "nat \<Rightarrow> ActiveSync \<Rightarrow> fsys \<Rightarrow> path \<Rightarrow> (error + fsys) option" where
  "addDirHandler n this fs p =
     (if \<not> ready this then Some (Inr fs)
      else if \<not> canRead fs p then Some (Inr fs)
      else copyDirectory n fs p (resolveTarget this p))"

definition changeHandler :: "ActiveSync \<Rightarrow> fsys \<Rightarrow> path \<Rightarrow> error + fsys" where
  "changeHandler this fs p =
     (if \<not> ready this then Inr fs
      else if \<not> canRead fs p then Inr fs
      else copyFile fs p (resolveTarget this p))"

definition unlinkHandler :: "ActiveSync \<Rightarrow> fsys \<Rightarrow> path \<Rightarrow> error + fsys" where
  "unlinkHandler this fs p =
     (if \<not> ready this then Inr fs
      else (let destFile = resolveTarget this p
            in if \<not> pathExists fs destFile then Inr fs
               else if \<not> canWrite fs destFile then Inr fs
               else fs_rm fs destFile False))"

definition unlinkDirHandler :: "ActiveSync \<Rightarrow> fsys \<Rightarrow> path \<Rightarrow> error + fsys" where
  "unlinkDirHandler this fs p =
     (if \<not> ready this then Inr fs
      else (let destFile = resolveTarget this p
            in if \<not> pathExists fs destFile then Inr fs
               else if \<not> canWrite fs destFile then Inr fs
               else fs_rm fs destFile True))"

definition readyHandler :: "ActiveSync \<Rightarrow> ActiveSync" where
  "readyHandler this =
     this\<lparr>ready := True,
          watcher := map_option (\<lambda>w. w\<lparr>listeners := remove1 E_ready (listeners w)\<rparr>) (watcher this)\<rparr>"

definition ActiveSync_abortHandler :: "ActiveSync \<Rightarrow> ActiveSync" where
  "ActiveSync_abortHandler this = ActiveSync_abort this"

text \<open>
  What the watcher reports: the five file events with their path, and the readiness
  signal. \<open>handle\<close> is the handler the class registers for each; it returns the object
  and the file system as the handler leaves them.
\<close>

datatype event =
    Added path | AddedDirectory path | Changed path
  | Removed path | RemovedDirectory path | Ready

fun event_name_of :: "event \<Rightarrow> event_name" where
  "event_name_of (Added p) = E_add"
| "event_name_of (AddedDirectory p) = E_addDir"
| "event_name_of (Changed p) = E_change"
| "event_name_of (Removed p) = E_unlink"
| "event_name_of (RemovedDirectory p) = E_unlinkDir"
| "event_name_of Ready = E_ready"

fun handle :: "nat \<Rightarrow> ActiveSync \<Rightarrow> fsys \<Rightarrow> event \<Rightarrow> ActiveSync \<times> (error + fsys) option" where
  "handle n this fs (Added p) = (this, Some (addHandler this fs p))"
| "handle n this fs (AddedDirectory p) = (this, addDirHandler n this fs p)"
| "handle n this fs (Changed p) = (this, Some (changeHandler this fs p))"
| "handle n this fs (Removed p) = (this, Some (unlinkHandler this fs p))"
| "handle n this fs (RemovedDirectory p) = (this, Some (unlinkDirHandler this fs p))"
| "handle n this fs Ready = (readyHandler this, Some (Inr fs))"

text \<open>An event emitted by the watcher runs the handler registered for it, if any.\<close>

definition emit :: "nat \<Rightarrow> ActiveSync \<Rightarrow> fsys \<Rightarrow> event \<Rightarrow> ActiveSync \<times> (error + fsys) option" where
  "emit n this fs ev =
     (case watcher this of
        None \<Rightarrow> (this, Some (Inr fs))
      | Some w \<Rightarrow>
          if event_name_of ev \<in> set (listeners w) then handle n this fs ev
          else (this, Some (Inr fs)))"

text \<open>The events of a watch session, delivered one after the other.\<close>

fun emit_all ::
  "nat \<Rightarrow> ActiveSync \<Rightarrow> fsys \<Rightarrow> event list \<Rightarrow> ActiveSync \<times> (error + fsys) option" where
  "emit_all n this fs [] = (this, Some (Inr fs))"
| "emit_all n this fs (ev # evs) =
     (case emit n this fs ev of
        (this', Some (Inr fs')) \<Rightarrow> emit_all n this' fs' evs
      | (this', r) \<Rightarrow> (this', r))"

text \<open>
  The operations of the class that can touch its fields: \<open>run\<close>, \<open>abort\<close>, the abort
  handler and the six event handlers (each with the file system it runs on).
\<close>

datatype operation = M_run | M_abort | M_abortHandler | M_handler nat fsys event

fun call :: "ActiveSync \<Rightarrow> operation \<Rightarrow> ActiveSync" where
  "call this M_run = ActiveSync_run this"
| "call this M_abort = ActiveSync_abort this"
| "call this M_abortHandler = ActiveSync_abortHandler this"
| "call this (M_handler n fs ev) = fst (handle n this fs ev)"

section \<open>Validators and Sync\<close>

definition isPath :: "fsys \<Rightarrow> path \<Rightarrow> bool" where
  "isPath fs target = (case fs_stat fs target of Inl e \<Rightarrow> False | Inr s \<Rightarrow> True)"

definition Validators_isDirectory :: "fsys \<Rightarrow> path \<Rightarrow> bool" where
  "Validators_isDirectory fs target =
     (case fs_stat fs target of Inl e \<Rightarrow> False | Inr s \<Rightarrow> isDirectory (st_kind s))"

definition Validators_canWrite :: "fsys \<Rightarrow> path \<Rightarrow> bool" where
  "Validators_canWrite fs target =
     (case fs_access fs target True True of Inl e \<Rightarrow> False | Inr u \<Rightarrow> True)"

definition Validators_canRead :: "fsys \<Rightarrow> path \<Rightarrow> bool" where
  "Validators_canRead fs target =
     (case fs_access fs target True False of Inl e \<Rightarrow> False | Inr u \<Rightarrow> True)"

text \<open>
  \<open>ctrl_aborted\<close> is the state of the \<^verbatim>\<open>AbortController\<close>. The arguments are taken
  as absolute paths already, on which \<open>normalizePath\<close> returns its input.
\<close>

record Sync =
  inArg :: path
  outArg :: path
  ctrl_aborted :: bool
  active :: "ActiveSync option"
  naive :: "NaiveSync option"
  aborted :: bool

definition new_Sync :: "path \<Rightarrow> path \<Rightarrow> Sync" where
  "new_Sync i out =
     \<lparr> inArg = i, outArg = out, ctrl_aborted = False, active = None, naive = None,
       aborted = False \<rparr>"

definition normalizePath :: "path \<Rightarrow> path" where
  "normalizePath input = input"

definition assertSource :: "fsys \<Rightarrow> path \<Rightarrow> error + unit" where
  "assertSource fs src =
     (if \<not> Validators_isDirectory fs src then Inl E_IN_DIR_ERROR
      else if \<not> Validators_canRead fs src then Inl E_IN_DIR_ACCESS
      else Inr ())"

definition createTargetPath :: "fsys \<Rightarrow> path \<Rightarrow> error + fsys" where
  "createTargetPath fs target =
     (case fs_mkdir fs target of Inl e \<Rightarrow> Inl E_OUT_DIR_ACCESS | Inr fs' \<Rightarrow> Inr fs')"

definition assertTarget :: "fsys \<Rightarrow> path \<Rightarrow> error + fsys" where
  "assertTarget fs src =
     (if \<not> isPath fs src then createTargetPath fs src
      else if \<not> Validators_isDirectory fs src then Inl E_OUT_MISMATCH
      else if \<not> Validators_canWrite fs src then Inl E_OUT_DIR_ACCESS
      else Inr fs)"

definition Sync_abort :: "Sync \<Rightarrow> Sync" where
  "Sync_abort this =
     this\<lparr>aborted := True, ctrl_aborted := True,
          naive := map_option NaiveSync_abort (naive this),
          active := map_option ActiveSync_abort (active this)\<rparr>"

text \<open>
  \<open>run\<close> awaits the initial synchronisation, and the interrupt handler it has
  registered may run \<open>abort\<close> in the meantime: \<open>sigint\<close> says whether it does. The
  handler only sets flags, so the model lets it run as soon as \<open>naive\<close> is assigned,
  and the initial synchronisation then works on the object as \<open>abort\<close> has left it.
\<close>

definition Sync_run :: "nat \<Rightarrow> bool \<Rightarrow> Sync \<Rightarrow> fsys \<Rightarrow> (error + Sync \<times> fsys) option" where
  "Sync_run n sigint this fs =
     (let inPath = normalizePath (inArg this);
          outPath = normalizePath (outArg this)
      in case assertSource fs inPath of
           Inl e \<Rightarrow> Some (Inl e)
         | Inr u \<Rightarrow>
             (case assertTarget fs outPath of
                Inl e \<Rightarrow> Some (Inl e)
              | Inr fs1 \<Rightarrow>
                  (let naiveSync = new_NaiveSync inPath outPath;
                       this1 = this\<lparr>naive := Some naiveSync\<rparr>;
                       this2 = (if sigint then Sync_abort this1 else this1);
                       naiveSync' = (case naive this2 of None \<Rightarrow> naiveSync | Some nv \<Rightarrow> nv)
                   in case NaiveSync_run n naiveSync' fs1 of
                        None \<Rightarrow> None
                      | Some (Inl e) \<Rightarrow> Some (Inl e)
                      | Some (Inr fs2) \<Rightarrow>
                          (let this3 = this2\<lparr>naive := None\<rparr>
                           in if aborted this3 then Some (Inr (this3, fs2))
                              else (let activeSync = new_ActiveSync inPath outPath
                                    in Some (Inr (this3\<lparr>active := Some (ActiveSync_run activeSync)\<rparr>,
                                                  fs2)))))))"

text \<open>A change in the source folder reaches the program through the watcher of \<open>active\<close>.\<close>

definition Sync_emit :: "nat \<Rightarrow> Sync \<Rightarrow> fsys \<Rightarrow> event \<Rightarrow> Sync \<times> (error + fsys) option" where
  "Sync_emit n this fs ev =
     (case active this of
        None \<Rightarrow> (this, Some (Inr fs))
      | Some a \<Rightarrow> (case emit n a fs ev of (a', r) \<Rightarrow> (this\<lparr>active := Some a'\<rparr>, r)))"

section \<open>Observations and sample states\<close>

text \<open>
  What can be observed of the entry at a path without looking below it: its kind,
  its time stamps and access bits, and its bytes.
\<close>

definition shallow :: "node \<Rightarrow> kind \<times> attrs \<times> content option" where
  "shallow n = (kind_of n, attrs_of n, bytes_of n)"

definition view :: "node \<Rightarrow> path \<Rightarrow> (kind \<times> attrs \<times> content option) option" where
  "view t p = map_option shallow (lookup t p)"

definition entry_at :: "fsys \<Rightarrow> path \<Rightarrow> (kind \<times> attrs \<times> content option) option" where
  "entry_at fs p = view (root fs) p"

text \<open>Two folders lie apart when neither is the other or inside the other.\<close>

definition apart :: "path \<Rightarrow> path \<Rightarrow> bool" where
  "apart p q = (\<not> prefix p q \<and> \<not> prefix q p)"

text \<open>
  A small file system for the examples: a source folder \<^verbatim>\<open>/in\<close> with \<^verbatim>\<open>a.txt\<close> and
  \<^verbatim>\<open>sub/b.txt\<close>, and a destination \<^verbatim>\<open>/out\<close> that holds a stale file.
\<close>

definition ex_attrs :: "int \<Rightarrow> attrs" where
  "ex_attrs t = \<lparr> atimeNs = t, mtimeNs = t, readable = True, writable = True \<rparr>"

definition ex_fs :: fsys where
  "ex_fs =
     \<lparr> root = Dir (ex_attrs 0)
         [(''in'', Dir (ex_attrs 10)
             [(''a.txt'', File (ex_attrs 1700000) ''1''),
              (''sub'', Dir (ex_attrs 20) [(''b.txt'', File (ex_attrs 2500000) ''2'')])]),
          (''out'', Dir (ex_attrs 30) [(''stale.txt'', File (ex_attrs 40) ''old'')])],
       now = 9000000 \<rparr>"

definition ex_naive :: NaiveSync where
  "ex_naive = new_NaiveSync [''in''] [''out'']"

definition ex_active :: ActiveSync where
  "ex_active = ActiveSync_run (new_ActiveSync [''in''] [''out''])"

definition kind_at :: "fsys \<Rightarrow> path \<Rightarrow> kind option" where
  "kind_at fs p = map_option kind_of (lookup (root fs) p)"

text \<open>The same file system after the initial synchronisation.\<close>

definition ex_fs_synced :: fsys where
  "ex_fs_synced =
     \<lparr> root = Dir (ex_attrs 0)
         [(''in'', Dir (ex_attrs 10)
             [(''a.txt'', File (ex_attrs 1700000) ''1''),
              (''sub'', Dir (ex_attrs 20) [(''b.txt'', File (ex_attrs 2500000) ''2'')])]),
          (''out'', Dir (ex_attrs 30)
             [(''a.txt'', File (ex_attrs 2000000) ''1''),
              (''sub'', Dir (ex_attrs 9000000) [(''b.txt'', File (ex_attrs 3000000) ''2'')])])],
       now = 9000000 \<rparr>"

definition ex_ready :: ActiveSync where
  "ex_ready = readyHandler ex_active"

text \<open>
  A destination that holds a directory \<^verbatim>\<open>x\<close> where the source had a file \<^verbatim>\<open>x\<close>, which
  has just been deleted.
\<close>

definition ex_fs_mismatch :: fsys where
  "ex_fs_mismatch =
     \<lparr> root = Dir (ex_attrs 0)
         [(''in'', Dir (ex_attrs 10) []),
          (''out'', Dir (ex_attrs 30) [(''x'', Dir (ex_attrs 40) [])])],
       now = 9000000 \<rparr>"

definition ex_sync_aborted :: Sync where
  "ex_sync_aborted =
     \<lparr> inArg = [''in''], outArg = [''out''], ctrl_aborted = True, active = None, naive = None,
       aborted = True \<rparr>"

text \<open>
  The clean-up is described by what it removes. An entry of the destination is
  \<open>stale\<close> when it is a file or a directory and its mapped source path does not
  exist; a path is \<open>doomed\<close> when it is, or lies below, a stale entry under one of
  the names \<open>X\<close> of the directory \<open>base\<close>. \<open>cleaned\<close> says that exactly the doomed
  paths are gone and all else is as before.
\<close>

definition stale :: "NaiveSync \<Rightarrow> fsys \<Rightarrow> path \<Rightarrow> bool" where
  "stale this fs rel =
     (rel \<noteq> []
      \<and> (kind_at fs (naive_outPath this @ rel) = Some IsFile
         \<or> kind_at fs (naive_outPath this @ rel) = Some IsDirectory)
      \<and> \<not> pathExists fs (naive_inPath this @ rel))"

definition doomed :: "NaiveSync \<Rightarrow> fsys \<Rightarrow> path \<Rightarrow> name set \<Rightarrow> path \<Rightarrow> bool" where
  "doomed this fs base X rel =
     (\<exists>r' x. x \<in> X \<and> prefix (base @ [x]) r' \<and> prefix r' rel \<and> stale this fs r')"

definition cleaned :: "NaiveSync \<Rightarrow> path \<Rightarrow> name set \<Rightarrow> fsys \<Rightarrow> fsys \<Rightarrow> bool" where
  "cleaned this base X fs fs' =
     (now fs' = now fs
      \<and> (\<forall>q. \<not> prefix (naive_outPath this) q \<longrightarrow> entry_at fs' q = entry_at fs q)
      \<and> (\<forall>rel. entry_at fs' (naive_outPath this @ rel)
            = (if doomed this fs base X rel then None else entry_at fs (naive_outPath this @ rel))))"

text \<open>Nothing lies \<open>n\<close> or more levels below \<open>p\<close>.\<close>

definition shallower :: "fsys \<Rightarrow> path \<Rightarrow> nat \<Rightarrow> bool" where
  "shallower fs p n = (\<forall>r. entry_at fs (p @ r) \<noteq> None \<longrightarrow> length r < n)"

text \<open>
  The sample file system after the clean-up alone, and one in which the destination
  holds a file \<^verbatim>\<open>sub\<close> where the source has a directory \<^verbatim>\<open>sub\<close>.
\<close>

definition ex_fs_cleaned :: fsys where
  "ex_fs_cleaned =
     \<lparr> root = Dir (ex_attrs 0)
         [(''in'', Dir (ex_attrs 10)
             [(''a.txt'', File (ex_attrs 1700000) ''1''),
              (''sub'', Dir (ex_attrs 20) [(''b.txt'', File (ex_attrs 2500000) ''2'')])]),
          (''out'', Dir (ex_attrs 30) [])],
       now = 9000000 \<rparr>"

definition ex_fs_filedir :: fsys where
  "ex_fs_filedir =
     \<lparr> root = Dir (ex_attrs 0)
         [(''in'', Dir (ex_attrs 10) [(''sub'', Dir (ex_attrs 20) [])]),
          (''out'', Dir (ex_attrs 30) [(''sub'', File (ex_attrs 40) ''was a file'')])],
       now = 9000000 \<rparr>"

text \<open>
  The copy is described by what it may touch and by what it leaves settled.
  \<open>restamp\<close> is an entry with the two time stamps of \<^verbatim>\<open>utimes\<close>. A directory is
  \<open>dir_ok\<close> when \<open>ensureDir\<close> finds nothing to do, and a pair of files is \<open>file_ok\<close>
  when \<open>copyFile\<close> finds the target up to date, or else would write it again as it
  is: a regular file with the bytes of the source and the stamps that \<^verbatim>\<open>utimes\<close> makes
  of the source's \<^verbatim>\<open>Date\<close>s. \<open>settled_at\<close> asks this of the
  destination counterpart of one source path; \<open>copied_in\<close> says that only
  counterparts of existing source entries below the names \<open>X\<close> of the directory \<open>b\<close>
  have changed, and that nothing has disappeared.
\<close>

definition restamp ::
  "int \<Rightarrow> int \<Rightarrow> kind \<times> attrs \<times> content option \<Rightarrow> kind \<times> attrs \<times> content option" where
  "restamp a m e =
     (fst e, (fst (snd e))\<lparr>atimeNs := utimes_ns a, mtimeNs := utimes_ns m\<rparr>, snd (snd e))"

definition dir_ok :: "fsys \<Rightarrow> path \<Rightarrow> bool" where
  "dir_ok fs t = (canRead fs t \<or> kind_at fs t = Some IsDirectory)"

definition file_ok :: "fsys \<Rightarrow> path \<Rightarrow> path \<Rightarrow> bool" where
  "file_ok fs s t =
     (t \<noteq> []
      \<and> (case fs_stat fs s of
           Inl e \<Rightarrow> False
         | Inr si \<Rightarrow>
             (case fs_stat fs t of
                Inl e \<Rightarrow> False
              | Inr ti \<Rightarrow>
                  delta si ti = 0
                  \<or> (\<exists>k a bytes. entry_at fs s = Some (k, a, Some bytes) \<and> k \<noteq> IsDirectory
                        \<and> entry_at fs t
                            = Some (IsFile,
                                a\<lparr>atimeNs := utimes_ns (atime si), mtimeNs := utimes_ns (mtime si)\<rparr>,
                                Some bytes)))))"

definition settled_at :: "NaiveSync \<Rightarrow> fsys \<Rightarrow> path \<Rightarrow> bool" where
  "settled_at this fs r =
     (if kind_at fs (naive_inPath this @ r) = None then True
      else if kind_at fs (naive_inPath this @ r) = Some IsDirectory
        then dir_ok fs (naive_outPath this @ r)
      else file_ok fs (naive_inPath this @ r) (naive_outPath this @ r))"

definition copied_in :: "NaiveSync \<Rightarrow> path \<Rightarrow> name set \<Rightarrow> fsys \<Rightarrow> fsys \<Rightarrow> bool" where
  "copied_in this b X fs fs' =
     (now fs' = now fs
      \<and> (\<forall>q. entry_at fs' q = entry_at fs q
            \<or> (\<exists>x\<in>X. \<exists>r. q = naive_outPath this @ b @ [x] @ r
                  \<and> entry_at fs (naive_inPath this @ b @ [x] @ r) \<noteq> None))
      \<and> (\<forall>q. entry_at fs q \<noteq> None \<longrightarrow> entry_at fs' q \<noteq> None))"

text \<open>
  What the permissions allow. A tree is \<open>unlocked\<close> when each of its directories can
  be read and written to, so that nothing in it is refused to the clean-up;
  \<open>removable_at\<close> is \<open>removable\<close> of the entry at a path.
\<close>

function unlocked_node :: "node \<Rightarrow> bool" where
  "unlocked_node (Dir a es) =
     (readable a \<and> writable a \<and> (\<forall>e \<in> set (AList.clearjunk es). unlocked_node (snd e)))"
| "unlocked_node (File a c) = True"
| "unlocked_node (Other a c) = True"
  by pat_completeness auto

termination
proof (relation "measure size")
  fix a :: attrs and es :: "(name \<times> node) list" and e
  assume "e \<in> set (AList.clearjunk es)"
  then have "map_of (AList.clearjunk es) (fst e) = Some (snd e)"
    by (simp add: distinct_clearjunk)
  then have "map_of es (fst e) = Some (snd e)"
    by (simp add: map_of_clearjunk)
  then have "(fst e, snd e) \<in> set es"
    by (rule map_of_SomeD)
  then have "size (snd e) < Suc (size_list (size_prod (\<lambda>x. 0) size) es)"
    by (induction es) auto
  then show "(snd e, Dir a es) \<in> measure size"
    by simp
qed simp

definition unlocked :: "fsys \<Rightarrow> path \<Rightarrow> bool" where
  "unlocked fs p = (case lookup (root fs) p of None \<Rightarrow> True | Some n \<Rightarrow> unlocked_node n)"

definition removable_at :: "fsys \<Rightarrow> path \<Rightarrow> bool" where
  "removable_at fs p = (case lookup (root fs) p of None \<Rightarrow> False | Some n \<Rightarrow> removable n)"

text \<open>
  The synchronised sample with a stale file left in the destination folder, and that
  folder write-protected; the files in it are still writable.
\<close>

definition ex_fs_locked :: fsys where
  "ex_fs_locked =
     \<lparr> root = Dir (ex_attrs 0)
         [(''in'', Dir (ex_attrs 10)
             [(''a.txt'', File (ex_attrs 1700000) ''1''),
              (''sub'', Dir (ex_attrs 20) [(''b.txt'', File (ex_attrs 2500000) ''2'')])]),
          (''out'', Dir ((ex_attrs 30)\<lparr>writable := False\<rparr>)
             [(''a.txt'', File (ex_attrs 2000000) ''1''),
              (''stale.txt'', File (ex_attrs 40) ''old''),
              (''sub'', Dir (ex_attrs 9000000) [(''b.txt'', File (ex_attrs 3000000) ''2'')])])],
       now = 9000000 \<rparr>"







text \<open>
  A source with a symbolic link to a regular file, once at the top level and once in
  the directory \<^verbatim>\<open>d\<close>, with the result of the initial synchronisation; and a source with
  a socket in \<^verbatim>\<open>d\<close>.
\<close>

definition ex_fs_link :: fsys where
  "ex_fs_link =
     \<lparr> root = Dir (ex_attrs 0)
         [(''in'', Dir (ex_attrs 10)
             [(''l'', Other (ex_attrs 5000000) (Some ''linked'')),
              (''d'', Dir (ex_attrs 20) [(''l'', Other (ex_attrs 5000000) (Some ''linked''))])]),
          (''out'', Dir (ex_attrs 30) [])],
       now = 9000000 \<rparr>"

definition ex_fs_link_synced :: fsys where
  "ex_fs_link_synced =
     \<lparr> root = Dir (ex_attrs 0)
         [(''in'', Dir (ex_attrs 10)
             [(''l'', Other (ex_attrs 5000000) (Some ''linked'')),
              (''d'', Dir (ex_attrs 20) [(''l'', Other (ex_attrs 5000000) (Some ''linked''))])]),
          (''out'', Dir (ex_attrs 30)
             [(''d'', Dir (ex_attrs 9000000) [(''l'', File (ex_attrs 5000000) ''linked'')])])],
       now = 9000000 \<rparr>"

definition ex_fs_socket :: fsys where
  "ex_fs_socket =
     \<lparr> root = Dir (ex_attrs 0)
         [(''in'', Dir (ex_attrs 10)
             [(''d'', Dir (ex_attrs 20) [(''s'', Other (ex_attrs 40) None)])]),
          (''out'', Dir (ex_attrs 30) [])],
       now = 9000000 \<rparr>"

section \<open>Properties\<close>

lemma floor_rat_numeral:
  "\<lfloor>numeral a / numeral b :: rat\<rfloor> = numeral a div numeral b"
  using floor_divide_of_int_eq [of "numeral a" "numeral b", where ?'a = rat] by simp

lemma floor_rat_neg_numeral:
  "\<lfloor>- (numeral a / numeral b) :: rat\<rfloor> = - numeral a div numeral b"
  using floor_divide_of_int_eq [of "- numeral a" "numeral b", where ?'a = rat] by simp

lemma floor_rat_one: "\<lfloor>1 / numeral b :: rat\<rfloor> = 1 div numeral b"
  using floor_divide_of_int_eq [of 1 "numeral b", where ?'a = rat] by simp

lemma floor_rat_neg_one: "\<lfloor>- (1 / numeral b) :: rat\<rfloor> = - 1 div numeral b"
  using floor_divide_of_int_eq [of "- 1" "numeral b", where ?'a = rat] by simp

lemmas number_defs =
  fl_def exponent_def pow2_def round_even_def C_trunc_def C_rem_def Let_def log2n.simps
  ceiling_def msFromTimeSpec_def ms_of_ns_def toUnixTimestamp_def uv_fs_to_timespec_def
  utimes_ns_def Math_round_def floor_rat_numeral floor_rat_neg_numeral floor_rat_one
  floor_rat_neg_one

lemma st_kind_stats_of: "st_kind (stats_of n) = kind_of n"
  by (simp add: stats_of_def)

lemma utimes_ns_whole:
  "utimes_ns 0 = 0" "utimes_ns 2 = 2000000" "utimes_ns 3 = 3000000" "utimes_ns 5 = 5000000"
  "utimes_ns 9 = 9000000"
  by (simp_all add: number_defs)

lemma Date_of_ns:
  "Math_round (ms_of_ns 40) = 0" "Math_round (ms_of_ns 1700000) = 2"
  "Math_round (ms_of_ns 2000000) = 2" "Math_round (ms_of_ns 2500000) = 3"
  "Math_round (ms_of_ns 3000000) = 3" "Math_round (ms_of_ns 5000000) = 5"
  "Math_round (ms_of_ns 9000000) = 9"
  by (simp_all add: number_defs)

lemma delta_of_ns:
  "\<bar>Math_round (fl (ms_of_ns 1700000 - ms_of_ns 2000000))\<bar> = 0"
  "\<bar>Math_round (fl (ms_of_ns 2500000 - ms_of_ns 3000000))\<bar> = 0"
  "\<bar>Math_round (fl (ms_of_ns 5000000 - ms_of_ns 5000000))\<bar> = 0"
  by (simp_all add: number_defs)

lemmas model_defs =
  NaiveSync_run_def new_NaiveSync_def fs_readdir_def cleanup_inDir_def join_def join_path_def
  pathExists_def fs_stat_def isFile_def isDirectory_def fs_rm_def copyFile_def ensureDir_def
  canRead_def canWrite_def fs_access_def dirname_def fs_copyFile_def fs_utimes_def
  stats_of_def atime_def mtime_def delta_def utimes_ns_whole Date_of_ns delta_of_ns
  fs_mkdir_def fresh_attrs_def
  new_ActiveSync_def ActiveSync_run_def ActiveSync_abort_def resolveSource_def resolveTarget_def
  addHandler_def addDirHandler_def changeHandler_def unlinkHandler_def unlinkDirHandler_def
  readyHandler_def emit_def entry_at_def view_def shallow_def kind_at_def

lemmas ex_defs =
  ex_attrs_def ex_fs_def ex_naive_def ex_active_def ex_fs_synced_def ex_ready_def
  ex_fs_mismatch_def ex_sync_aborted_def

subsection \<open>Paths into the tree\<close>

lemma lookup_append:
  "lookup t (p @ q) = (case lookup t p of None \<Rightarrow> None | Some n \<Rightarrow> lookup n q)"
  by (induction t p rule: lookup.induct) (auto split: option.splits)

lemma lookup_snoc_Some:
  "lookup t (p @ [x]) = Some n \<Longrightarrow> \<exists>a es. lookup t p = Some (Dir a es) \<and> map_of es x = Some n"
  apply (simp add: lookup_append split: option.splits)
  subgoal for m by (cases m) (auto split: option.splits)
  done

lemma lookup_strict_prefix_Dir:
  "lookup t q = Some n \<Longrightarrow> strict_prefix p q \<Longrightarrow> \<exists>a es. lookup t p = Some (Dir a es)"
proof -
  assume l: "lookup t q = Some n" and sp: "strict_prefix p q"
  then obtain x r where q: "q = p @ x # r"
    by (auto simp: strict_prefix_def prefix_def) (metis list.exhaust)
  from l obtain m where m: "lookup t p = Some m" "lookup m (x # r) = Some n"
    by (auto simp: q lookup_append split: option.splits)
  then show ?thesis by (cases m) auto
qed

lemma update_same: "map_of es x = Some c \<Longrightarrow> AList.update x c es = es"
  by (induction es) auto

lemma mkdirp_existing:
  "lookup t p = Some (Dir a es) \<Longrightarrow> mkdirp fresh p t = Inr t"
  by (induction fresh p t rule: mkdirp.induct) (auto split: option.splits simp: update_same)

lemma lookup_put_apart:
  "\<not> prefix p q \<Longrightarrow> \<not> prefix q p \<Longrightarrow> lookup (put p v t) q = lookup t q"
proof (induction p v t arbitrary: q rule: put.induct)
  case (2 x v a es)
  then show ?case
    by (cases q) (auto simp: update_conv' delete_conv' split: option.splits)
next
  case (3 x y p v a es)
  then show ?case
    by (cases q) (auto simp: update_conv' split: option.splits)
qed auto

lemma lookup_put_None_prefix:
  "p \<noteq> [] \<Longrightarrow> prefix p q \<Longrightarrow> lookup (put p None t) q = None"
proof (induction p "None :: node option" t arbitrary: q rule: put.induct)
  case (2 x a es)
  then show ?case
    by (cases q) (auto simp: delete_conv' split: option.splits)
next
  case (3 x y p a es)
  then show ?case
    by (cases q) (auto simp: update_conv' split: option.splits)
next
  case (4 x p a c)
  then show ?case by (cases q) auto
next
  case (5 x p a c)
  then show ?case by (cases q) auto
qed auto

lemma view_put_strict_prefix:
  "strict_prefix q p \<Longrightarrow> view (put p v t) q = view t q"
proof (induction p v t arbitrary: q rule: put.induct)
  case (2 x v a es)
  then show ?case
    by (cases q) (auto simp: view_def shallow_def)
next
  case (3 x y p v a es)
  then show ?case
    by (cases q) (auto simp: view_def shallow_def update_conv' split: option.splits)
qed (auto simp: view_def)

lemma view_put_None:
  "p \<noteq> [] \<Longrightarrow> view (put p None t) q = (if prefix p q then None else view t q)"
proof (cases "prefix p q")
  case True
  assume "p \<noteq> []"
  with True show ?thesis by (simp add: view_def lookup_put_None_prefix)
next
  case False
  show ?thesis
  proof (cases "prefix q p")
    case True
    with False have "strict_prefix q p" by (auto simp: strict_prefix_def)
    with False show ?thesis by (simp add: view_put_strict_prefix)
  next
    case nq: False
    with False show ?thesis by (simp add: view_def lookup_put_apart)
  qed
qed

lemma lookup_put_Some:
  "lookup t (butlast p) = Some (Dir a es) \<Longrightarrow> p \<noteq> [] \<Longrightarrow>
   lookup (put p (Some m) t) (p @ r) = lookup m r"
proof (induction p "Some m" t arbitrary: a es rule: put.induct)
  case (2 x a' es')
  then show ?case by (auto simp: update_conv')
next
  case (3 x y p a' es')
  then show ?case by (auto simp: update_conv' split: option.splits)
qed (auto split: if_splits)




lemma pathExists_iff: "pathExists fs p = (lookup (root fs) p \<noteq> None)"
  by (simp add: pathExists_def fs_stat_def split: option.split)

lemma pathExists_entry: "pathExists fs p = (entry_at fs p \<noteq> None)"
  by (simp add: pathExists_iff entry_at_def view_def)

lemma kind_at_entry: "kind_at fs p = map_option fst (entry_at fs p)"
  by (simp add: kind_at_def entry_at_def view_def shallow_def option.map_comp comp_def)

lemma ensureDir_existing:
  "lookup (root fs) p = Some (Dir a es) \<Longrightarrow> ensureDir fs p = Inr fs"
  by (simp add: ensureDir_def fs_mkdir_def mkdirp_existing)

lemma lookup_dirname:
  "lookup t p = Some n \<Longrightarrow> p \<noteq> [] \<Longrightarrow> \<exists>a es. lookup t (dirname p) = Some (Dir a es)"
proof -
  assume l: "lookup t p = Some n" and "p \<noteq> []"
  then have "p = butlast p @ [last p]" by simp
  then have "strict_prefix (butlast p) p"
    by (metis append_Nil2 list.distinct(1) prefixI same_append_eq strict_prefix_def)
  with l show ?thesis
    unfolding dirname_def by (rule lookup_strict_prefix_Dir)
qed

lemma entry_at_rm:
  "fs_rm fs p r = Inr fs' \<Longrightarrow>
   now fs' = now fs \<and> (\<forall>q. entry_at fs' q = (if prefix p q then None else entry_at fs q))"
  by (auto simp: fs_rm_def entry_at_def view_put_None split: option.splits if_splits)

lemma nothing_below_non_directory:
  "kind_at fs p = Some k \<Longrightarrow> k \<noteq> IsDirectory \<Longrightarrow> strict_prefix p q \<Longrightarrow> entry_at fs q = None"
proof (rule ccontr)
  assume k: "kind_at fs p = Some k" "k \<noteq> IsDirectory" and sp: "strict_prefix p q"
    and "entry_at fs q \<noteq> None"
  then obtain n where "lookup (root fs) q = Some n"
    by (auto simp: entry_at_def view_def)
  from lookup_strict_prefix_Dir [OF this sp] k show False
    by (auto simp: kind_at_def)
qed

lemma NaiveSync_aborted_unread:
  "cleanupOutPath n (this\<lparr>naive_aborted := b\<rparr>) fs d = cleanupOutPath n this fs d"
  "cleanupOutPath_files n (this\<lparr>naive_aborted := b\<rparr>) fs d i files = cleanupOutPath_files n this fs d i files"
  by (induction n this fs d and n this fs d i files rule: cleanupOutPath_cleanupOutPath_files.induct)
    (auto simp: cleanup_inDir_def Let_def split: sum.splits option.splits)

lemma run_files_aborted_unread:
  "run_files n (this\<lparr>naive_aborted := b\<rparr>) fs files = run_files n this fs files"
  by (induction n this fs files rule: run_files.induct)
    (auto simp: Let_def split: sum.splits option.splits)

lemma NaiveSync_run_aborted_unread:
  "NaiveSync_run n (this\<lparr>naive_aborted := b\<rparr>) fs = NaiveSync_run n this fs"
  by (auto simp: NaiveSync_run_def NaiveSync_aborted_unread run_files_aborted_unread
      split: sum.splits option.splits)

subsection \<open>The incremental handler before and after readiness\<close>

lemma handle_not_ready:
  "\<not> ready this \<Longrightarrow> ev \<noteq> Ready \<Longrightarrow> handle n this fs ev = (this, Some (Inr fs))"
  by (cases ev)
    (simp_all add: addHandler_def addDirHandler_def changeHandler_def unlinkHandler_def
      unlinkDirHandler_def)

lemma emit_not_ready:
  "\<not> ready this \<Longrightarrow> ev \<noteq> Ready \<Longrightarrow> emit n this fs ev = (this, Some (Inr fs))"
  by (simp add: emit_def handle_not_ready split: option.split)

text \<open>
  Claim C4. As long as the readiness signal has not been received, the handlers of
  \<open>added\<close>, \<open>addedDirectory\<close>, \<open>changed\<close>, \<open>removed\<close> and \<open>removedDirectory\<close> return at
  once: whatever events the watcher delivers, and however many, the file system and
  the object are afterwards what they were.
\<close>

theorem events_before_ready_discarded:
  assumes "\<not> ready this" and "Ready \<notin> set evs"
  shows "emit_all n this fs evs = (this, Some (Inr fs))
    \<and> (\<forall>ev \<in> set evs. handle n this fs ev = (this, Some (Inr fs)))"
proof -
  from assms have "emit_all n this fs evs = (this, Some (Inr fs))"
  proof (induction evs)
    case Nil
    show ?case by simp
  next
    case (Cons ev evs)
    from Cons.prems have "ev \<noteq> Ready" by auto
    with Cons.prems have "emit n this fs ev = (this, Some (Inr fs))"
      by (simp add: emit_not_ready)
    with Cons show ?case by simp
  qed
  moreover have "\<forall>ev \<in> set evs. handle n this fs ev = (this, Some (Inr fs))"
    using assms by (auto intro: handle_not_ready)
  ultimately show ?thesis by simp
qed

theorem events_before_ready_discarded_witness:
  "\<not> ready ex_active
   \<and> Ready \<notin> set [Added [''in'', ''a.txt''], Removed [''in'', ''stale.txt'']]
   \<and> emit_all 3 ex_active ex_fs [Added [''in'', ''a.txt''], Removed [''in'', ''stale.txt'']]
       = (ex_active, Some (Inr ex_fs))"
proof -
  have r: "\<not> ready ex_active"
    by (simp add: ex_active_def ActiveSync_run_def new_ActiveSync_def)
  have e: "Ready \<notin> set [Added [''in'', ''a.txt''], Removed [''in'', ''stale.txt'']]"
    by simp
  from events_before_ready_discarded [OF r e, of 3 ex_fs] r e show ?thesis
    by blast
qed

subsection \<open>The readiness flag\<close>

lemma ready_call: "ready (call this m) = (ready this \<or> (\<exists>n fs. m = M_handler n fs Ready))"
proof (cases m)
  case (M_handler n fs ev)
  then show ?thesis
    by (cases ev) (simp_all add: readyHandler_def)
qed (simp_all add: ActiveSync_run_def ActiveSync_abort_def ActiveSync_abortHandler_def
  split: option.split)

text \<open>
  Claim C10. The flag \<open>ready\<close> is false in a new object; a call of \<open>run\<close>, of \<open>abort\<close>,
  of the abort handler or of a handler of a file event leaves it as it is; the
  handler of the readiness signal sets it. So after any sequence of calls it is true
  exactly if it was true before or the readiness handler is among the calls, and it
  never goes back to false. (That the field is \<^verbatim>\<open>protected\<close> is what makes these calls
  the only way to it.)
\<close>

theorem ready_flag_monotonic:
  "ready (new_ActiveSync i out) = False
   \<and> ready (foldl call this ms) = (ready this \<or> (\<exists>n fs. M_handler n fs Ready \<in> set ms))
   \<and> ready (call this M_abort) = ready this
   \<and> ready (call (readyHandler this) m) = True"
proof -
  have "ready (foldl call this ms) = (ready this \<or> (\<exists>n fs. M_handler n fs Ready \<in> set ms))"
  proof (induction ms arbitrary: this)
    case Nil
    show ?case by simp
  next
    case (Cons m ms)
    show ?case
      unfolding foldl_Cons Cons.IH ready_call by auto
  qed
  moreover have "ready (call (readyHandler this) m) = True"
    unfolding ready_call by (simp add: readyHandler_def)
  moreover have "ready (call this M_abort) = ready this"
    by (simp add: ActiveSync_abort_def split: option.split)
  moreover have "ready (new_ActiveSync i out) = False"
    by (simp add: new_ActiveSync_def)
  ultimately show ?thesis
    by blast
qed

theorem ready_flag_monotonic_witness:
  "ready (foldl call (new_ActiveSync [''in''] [''out''])
      [M_run, M_handler 3 ex_fs (Added [''in'', ''a.txt'']), M_abort]) = False
   \<and> ready (foldl call (new_ActiveSync [''in''] [''out''])
      [M_run, M_handler 3 ex_fs Ready, M_handler 3 ex_fs (Removed [''in'', ''a.txt'']), M_abort])
     = True"
  using ready_flag_monotonic [of "[''in'']" "[''out'']" "new_ActiveSync [''in''] [''out'']"
      "[M_run, M_handler 3 ex_fs (Added [''in'', ''a.txt'']), M_abort]"]
    ready_flag_monotonic [of "[''in'']" "[''out'']" "new_ActiveSync [''in''] [''out'']"
      "[M_run, M_handler 3 ex_fs Ready, M_handler 3 ex_fs (Removed [''in'', ''a.txt'']), M_abort]"]
  by simp

subsection \<open>Copying a file that is up to date\<close>

text \<open>
  Claim C2. When the target of \<open>copyFile\<close> exists and the rounded difference of the
  two modification times is zero, \<open>copyFile\<close> returns with the file system as it found
  it: nothing is written, and the target keeps its bytes and both time stamps. (The
  target of a copy is an entry of some directory, never the root of the file system.
  The difference is the one the code computes, of the two doubles.)
\<close>

theorem copyFile_skips_equal_mtime:
  assumes "fs_stat fs source = Inr sourceInfo"
    and "fs_stat fs target = Inr targetInfo"
    and "\<bar>Math_round (fl (mtimeMs sourceInfo - mtimeMs targetInfo))\<bar> = 0"
    and "target \<noteq> []"
  shows "copyFile fs source target = Inr fs"
proof -
  from assms(2) obtain n where n: "lookup (root fs) target = Some n"
    by (auto simp: fs_stat_def split: option.splits)
  with assms(4) obtain a es where "lookup (root fs) (dirname target) = Some (Dir a es)"
    using lookup_dirname by blast
  then have "ensureDir fs (dirname target) = Inr fs"
    by (rule ensureDir_existing)
  moreover have "pathExists fs target"
    using n by (simp add: pathExists_iff)
  ultimately show ?thesis
    using assms(1-3) by (simp add: copyFile_def delta_def)
qed


theorem copyFile_skips_equal_mtime_witness:
  "fs_stat ex_fs_synced [''in'', ''a.txt''] = Inr (stats_of (File (ex_attrs 1700000) ''1''))
   \<and> fs_stat ex_fs_synced [''out'', ''a.txt''] = Inr (stats_of (File (ex_attrs 2000000) ''1''))
   \<and> copyFile ex_fs_synced [''in'', ''a.txt''] [''out'', ''a.txt''] = Inr ex_fs_synced"
proof -
  have s: "fs_stat ex_fs_synced [''in'', ''a.txt''] = Inr (stats_of (File (ex_attrs 1700000) ''1''))"
    by (simp add: fs_stat_def ex_fs_synced_def)
  have t: "fs_stat ex_fs_synced [''out'', ''a.txt''] = Inr (stats_of (File (ex_attrs 2000000) ''1''))"
    by (simp add: fs_stat_def ex_fs_synced_def)
  have d: "\<bar>Math_round (fl (mtimeMs (stats_of (File (ex_attrs 1700000) ''1''))
      - mtimeMs (stats_of (File (ex_attrs 2000000) ''1''))))\<bar> = 0"
    by (simp add: stats_of_def ex_attrs_def delta_of_ns)
  have n: "[''out'', ''a.txt''] \<noteq> []"
    by simp
  from copyFile_skips_equal_mtime [OF s t d n] s t show ?thesis
    by blast
qed

subsection \<open>Removals after readiness\<close>

lemma canWrite_iff: "canWrite fs p = (\<exists>n. lookup (root fs) p = Some n \<and> writable (attrs_of n))"
  by (auto simp: canWrite_def pathExists_iff fs_access_def split: option.splits)

lemma removable_leaf: "kind_of n \<noteq> IsDirectory \<Longrightarrow> removable n"
  by (cases n) auto

lemma rm_leaves:
  assumes rm: "fs_rm fs p r = Inr fs'"
  shows "\<forall>q. prefix p q \<longrightarrow> entry_at fs' q = None"
    and "\<forall>q. \<not> prefix p q \<longrightarrow> q \<noteq> dirname p \<longrightarrow> entry_at fs' q = entry_at fs q"
    and "kind_at fs' (dirname p) = Some IsDirectory"
proof -
  note e = entry_at_rm [OF rm]
  show "\<forall>q. prefix p q \<longrightarrow> entry_at fs' q = None"
    using e by simp
  show "\<forall>q. \<not> prefix p q \<longrightarrow> q \<noteq> dirname p \<longrightarrow> entry_at fs' q = entry_at fs q"
    using e by simp
  from rm obtain n where n: "lookup (root fs) p = Some n" and ne: "p \<noteq> []"
    by (auto simp: fs_rm_def split: option.splits if_splits)
  from lookup_dirname [OF n ne] obtain a es where "lookup (root fs) (dirname p) = Some (Dir a es)"
    by blast
  then have "kind_at fs (dirname p) = Some IsDirectory"
    by (simp add: kind_at_def)
  moreover have "\<not> prefix p (dirname p)"
  proof
    assume "prefix p (dirname p)"
    then have "length p \<le> length (butlast p)"
      unfolding dirname_def by (rule prefix_length_le)
    with ne show False by (cases p rule: rev_cases) simp_all
  qed
  ultimately show "kind_at fs' (dirname p) = Some IsDirectory"
    using e by (simp add: kind_at_entry)
qed

text \<open>
  Claim C8, as the code has it. After readiness the handlers of \<open>removed\<close> and
  \<open>removedDirectory\<close> do nothing when the mapped destination entry is absent or not
  writable. Otherwise they call \<^verbatim>\<open>rm\<close>, and what happens is what \<^verbatim>\<open>rm\<close> does (the mapped
  entry not being the root of the file system). The plain \<^verbatim>\<open>rm\<close> of \<open>removed\<close> is
  refused for a directory, and the handler ends with that error; for any other entry
  it is refused when the directory that holds the entry is not writable, and else
  deletes exactly that entry. The recursive \<^verbatim>\<open>rm\<close> of \<open>removedDirectory\<close> is refused
  when that directory is not writable or something below the entry cannot be
  removed, and else deletes the entry with all that is below it, and nothing else.
  (Of the directory that holds the entry the conclusion keeps the kind only.)
\<close>

theorem unlink_handlers_after_ready:
  assumes "ready this"
  shows "(\<not> pathExists fs (resolveTarget this p) \<or> \<not> canWrite fs (resolveTarget this p) \<longrightarrow>
            unlinkHandler this fs p = Inr fs \<and> unlinkDirHandler this fs p = Inr fs)
    \<and> (pathExists fs (resolveTarget this p) \<and> canWrite fs (resolveTarget this p)
         \<and> resolveTarget this p \<noteq> [] \<longrightarrow>
          (kind_at fs (resolveTarget this p) = Some IsDirectory \<longrightarrow>
             unlinkHandler this fs p = Inl EISDIR)
        \<and> (kind_at fs (resolveTarget this p) \<noteq> Some IsDirectory
             \<and> \<not> canWrite fs (dirname (resolveTarget this p)) \<longrightarrow>
             unlinkHandler this fs p = Inl EACCES)
        \<and> (kind_at fs (resolveTarget this p) \<noteq> Some IsDirectory
             \<and> canWrite fs (dirname (resolveTarget this p)) \<longrightarrow>
             (\<exists>fs'. unlinkHandler this fs p = Inr fs'
                \<and> entry_at fs' (resolveTarget this p) = None
                \<and> (\<forall>q. q \<noteq> resolveTarget this p \<longrightarrow> q \<noteq> dirname (resolveTarget this p) \<longrightarrow>
                      entry_at fs' q = entry_at fs q)
                \<and> kind_at fs' (dirname (resolveTarget this p)) = Some IsDirectory))
        \<and> (\<not> (canWrite fs (dirname (resolveTarget this p))
                \<and> removable_at fs (resolveTarget this p)) \<longrightarrow>
             unlinkDirHandler this fs p = Inl EACCES)
        \<and> (canWrite fs (dirname (resolveTarget this p))
             \<and> removable_at fs (resolveTarget this p) \<longrightarrow>
             (\<exists>fs'. unlinkDirHandler this fs p = Inr fs'
                \<and> (\<forall>q. prefix (resolveTarget this p) q \<longrightarrow> entry_at fs' q = None)
                \<and> (\<forall>q. \<not> prefix (resolveTarget this p) q \<longrightarrow>
                      q \<noteq> dirname (resolveTarget this p) \<longrightarrow> entry_at fs' q = entry_at fs q)
                \<and> kind_at fs' (dirname (resolveTarget this p)) = Some IsDirectory)))"
proof -
  let ?d = "resolveTarget this p"
  have skip: "\<not> pathExists fs ?d \<or> \<not> canWrite fs ?d \<Longrightarrow>
      unlinkHandler this fs p = Inr fs \<and> unlinkDirHandler this fs p = Inr fs"
    using assms by (auto simp: unlinkHandler_def unlinkDirHandler_def Let_def)
  have act: "(kind_at fs ?d = Some IsDirectory \<longrightarrow> unlinkHandler this fs p = Inl EISDIR)
      \<and> (kind_at fs ?d \<noteq> Some IsDirectory \<and> \<not> canWrite fs (dirname ?d) \<longrightarrow>
           unlinkHandler this fs p = Inl EACCES)
      \<and> (kind_at fs ?d \<noteq> Some IsDirectory \<and> canWrite fs (dirname ?d) \<longrightarrow>
           (\<exists>fs'. unlinkHandler this fs p = Inr fs' \<and> entry_at fs' ?d = None
              \<and> (\<forall>q. q \<noteq> ?d \<longrightarrow> q \<noteq> dirname ?d \<longrightarrow> entry_at fs' q = entry_at fs q)
              \<and> kind_at fs' (dirname ?d) = Some IsDirectory))
      \<and> (\<not> (canWrite fs (dirname ?d) \<and> removable_at fs ?d) \<longrightarrow>
           unlinkDirHandler this fs p = Inl EACCES)
      \<and> (canWrite fs (dirname ?d) \<and> removable_at fs ?d \<longrightarrow>
           (\<exists>fs'. unlinkDirHandler this fs p = Inr fs'
              \<and> (\<forall>q. prefix ?d q \<longrightarrow> entry_at fs' q = None)
              \<and> (\<forall>q. \<not> prefix ?d q \<longrightarrow> q \<noteq> dirname ?d \<longrightarrow> entry_at fs' q = entry_at fs q)
              \<and> kind_at fs' (dirname ?d) = Some IsDirectory))"
    if ex: "pathExists fs ?d" and cw: "canWrite fs ?d" and ne: "?d \<noteq> []"
  proof -
    from ex obtain n where n: "lookup (root fs) ?d = Some n"
      by (auto simp: pathExists_iff)
    from lookup_dirname [OF n ne] obtain a' es' where
      par: "lookup (root fs) (dirname ?d) = Some (Dir a' es')"
      by blast
    have cwp: "canWrite fs (dirname ?d) = writable a'"
      using par by (simp add: canWrite_iff)
    have ra: "removable_at fs ?d = removable n"
      using n by (simp add: removable_at_def)
    have kn: "kind_at fs ?d = Some (kind_of n)"
      using n by (simp add: kind_at_def)
    have h1: "unlinkHandler this fs p = fs_rm fs ?d False"
      and h2: "unlinkDirHandler this fs p = fs_rm fs ?d True"
      using assms ex cw by (simp_all add: unlinkHandler_def unlinkDirHandler_def Let_def)
    have rm: "fs_rm fs ?d r =
        (if kind_of n = IsDirectory \<and> \<not> r then Inl EISDIR
         else if \<not> writable a' \<or> \<not> removable n then Inl EACCES
         else Inr (fs\<lparr>root := put ?d None (root fs)\<rparr>))" for r
      using n par ne by (simp add: fs_rm_def)
    have isdir: "unlinkHandler this fs p = Inl EISDIR" if "kind_of n = IsDirectory"
      using that by (simp add: h1 rm)
    have refused: "unlinkHandler this fs p = Inl EACCES"
      if "kind_of n \<noteq> IsDirectory" "\<not> writable a'"
      using that by (simp add: h1 rm)
    have plain: "\<exists>fs'. unlinkHandler this fs p = Inr fs' \<and> entry_at fs' ?d = None
        \<and> (\<forall>q. q \<noteq> ?d \<longrightarrow> q \<noteq> dirname ?d \<longrightarrow> entry_at fs' q = entry_at fs q)
        \<and> kind_at fs' (dirname ?d) = Some IsDirectory"
      if nd: "kind_of n \<noteq> IsDirectory" and w: "writable a'"
    proof -
      let ?fs' = "fs\<lparr>root := put ?d None (root fs)\<rparr>"
      have r: "fs_rm fs ?d False = Inr ?fs'"
        using nd w removable_leaf [OF nd] by (simp add: rm)
      note l = rm_leaves [OF r]
      have "entry_at ?fs' q = entry_at fs q" if "q \<noteq> ?d" "q \<noteq> dirname ?d" for q
      proof (cases "prefix ?d q")
        case True
        with that(1) have "strict_prefix ?d q" by (simp add: strict_prefix_def)
        from nothing_below_non_directory [OF kn nd this] l(1) True show ?thesis by simp
      next
        case False
        with l(2) that(2) show ?thesis by blast
      qed
      with l(1,3) r show ?thesis
        unfolding h1 by blast
    qed
    have refused_dir: "unlinkDirHandler this fs p = Inl EACCES"
      if "\<not> (writable a' \<and> removable n)"
      using that by (auto simp: h2 rm)
    have recursive: "\<exists>fs'. unlinkDirHandler this fs p = Inr fs'
        \<and> (\<forall>q. prefix ?d q \<longrightarrow> entry_at fs' q = None)
        \<and> (\<forall>q. \<not> prefix ?d q \<longrightarrow> q \<noteq> dirname ?d \<longrightarrow> entry_at fs' q = entry_at fs q)
        \<and> kind_at fs' (dirname ?d) = Some IsDirectory"
      if "writable a'" "removable n"
    proof -
      let ?fs' = "fs\<lparr>root := put ?d None (root fs)\<rparr>"
      have r: "fs_rm fs ?d True = Inr ?fs'"
        using that by (simp add: rm)
      from rm_leaves [OF r] r show ?thesis
        unfolding h2 by blast
    qed
    from isdir refused plain refused_dir recursive show ?thesis
      unfolding cwp ra kn by simp
  qed
  from skip act show ?thesis by blast
qed

theorem unlink_handlers_after_ready_witness:
  "ready ex_ready
   \<and> (\<exists>fs'. unlinkHandler ex_ready ex_fs_synced [''in'', ''a.txt''] = Inr fs'
         \<and> entry_at fs' [''out'', ''a.txt''] = None
         \<and> entry_at fs' [''out'', ''sub'', ''b.txt''] = entry_at ex_fs_synced [''out'', ''sub'', ''b.txt''])
   \<and> (\<exists>fs'. unlinkDirHandler ex_ready ex_fs_synced [''in'', ''sub''] = Inr fs'
         \<and> entry_at fs' [''out'', ''sub'', ''b.txt''] = None
         \<and> entry_at fs' [''out'', ''a.txt''] = entry_at ex_fs_synced [''out'', ''a.txt''])
   \<and> unlinkHandler ex_ready ex_fs_synced [''in'', ''gone.txt''] = Inr ex_fs_synced
   \<and> canWrite ex_fs_locked [''out'', ''a.txt'']
   \<and> unlinkHandler ex_ready ex_fs_locked [''in'', ''a.txt''] = Inl EACCES
   \<and> unlinkDirHandler ex_ready ex_fs_locked [''in'', ''sub''] = Inl EACCES"
proof -
  have r: "ready ex_ready"
    by (simp add: ex_defs model_defs)
  have a: "resolveTarget ex_ready [''in'', ''a.txt''] = [''out'', ''a.txt'']"
    and b: "resolveTarget ex_ready [''in'', ''sub''] = [''out'', ''sub'']"
    and c: "resolveTarget ex_ready [''in'', ''gone.txt''] = [''out'', ''gone.txt'']"
    by (simp_all add: ex_defs model_defs)
  have pa: "pathExists ex_fs_synced [''out'', ''a.txt''] \<and> canWrite ex_fs_synced [''out'', ''a.txt'']
      \<and> kind_at ex_fs_synced [''out'', ''a.txt''] \<noteq> Some IsDirectory
      \<and> canWrite ex_fs_synced (dirname [''out'', ''a.txt''])"
    and pb: "pathExists ex_fs_synced [''out'', ''sub''] \<and> canWrite ex_fs_synced [''out'', ''sub'']
      \<and> canWrite ex_fs_synced (dirname [''out'', ''sub''])
      \<and> removable_at ex_fs_synced [''out'', ''sub'']"
    and pc: "\<not> pathExists ex_fs_synced [''out'', ''gone.txt'']"
    and pd: "pathExists ex_fs_locked [''out'', ''a.txt''] \<and> canWrite ex_fs_locked [''out'', ''a.txt'']
      \<and> kind_at ex_fs_locked [''out'', ''a.txt''] \<noteq> Some IsDirectory
      \<and> \<not> canWrite ex_fs_locked (dirname [''out'', ''a.txt''])"
    and pe: "pathExists ex_fs_locked [''out'', ''sub''] \<and> canWrite ex_fs_locked [''out'', ''sub'']
      \<and> \<not> canWrite ex_fs_locked (dirname [''out'', ''sub''])"
    by (simp_all add: ex_defs ex_fs_locked_def removable_at_def model_defs)
  from unlink_handlers_after_ready [OF r, of ex_fs_synced "[''in'', ''a.txt'']"] pa
  have 1: "\<exists>fs'. unlinkHandler ex_ready ex_fs_synced [''in'', ''a.txt''] = Inr fs'
         \<and> entry_at fs' [''out'', ''a.txt''] = None
         \<and> entry_at fs' [''out'', ''sub'', ''b.txt''] = entry_at ex_fs_synced [''out'', ''sub'', ''b.txt'']"
    unfolding a by (auto simp: dirname_def)
  from unlink_handlers_after_ready [OF r, of ex_fs_synced "[''in'', ''sub'']"] pb
  have 2: "\<exists>fs'. unlinkDirHandler ex_ready ex_fs_synced [''in'', ''sub''] = Inr fs'
         \<and> entry_at fs' [''out'', ''sub'', ''b.txt''] = None
         \<and> entry_at fs' [''out'', ''a.txt''] = entry_at ex_fs_synced [''out'', ''a.txt'']"
    unfolding b by (auto simp: dirname_def)
  from unlink_handlers_after_ready [OF r, of ex_fs_synced "[''in'', ''gone.txt'']"] pc
  have 3: "unlinkHandler ex_ready ex_fs_synced [''in'', ''gone.txt''] = Inr ex_fs_synced"
    unfolding c by auto
  from unlink_handlers_after_ready [OF r, of ex_fs_locked "[''in'', ''a.txt'']"] pd
  have 4: "unlinkHandler ex_ready ex_fs_locked [''in'', ''a.txt''] = Inl EACCES"
    unfolding a by blast
  from unlink_handlers_after_ready [OF r, of ex_fs_locked "[''in'', ''sub'']"] pe
  have 5: "unlinkDirHandler ex_ready ex_fs_locked [''in'', ''sub''] = Inl EACCES"
    unfolding b by blast
  from r 1 2 3 4 5 pd show ?thesis by blast
qed

text \<open>
  The claim as the specification words it promises a deletion whenever the mapped
  entry is present and writable. With a directory at the mapped path the handler of
  \<open>removed\<close> deletes nothing; nor does it delete a writable file in a folder that is
  write-protected.
\<close>

theorem unlink_handler_directory_counterexample:
  "ready ex_ready
   \<and> pathExists ex_fs_mismatch (resolveTarget ex_ready [''in'', ''x''])
   \<and> canWrite ex_fs_mismatch (resolveTarget ex_ready [''in'', ''x''])
   \<and> unlinkHandler ex_ready ex_fs_mismatch [''in'', ''x''] = Inl EISDIR
   \<and> pathExists ex_fs_locked (resolveTarget ex_ready [''in'', ''a.txt''])
   \<and> canWrite ex_fs_locked (resolveTarget ex_ready [''in'', ''a.txt''])
   \<and> kind_at ex_fs_locked (resolveTarget ex_ready [''in'', ''a.txt'']) = Some IsFile
   \<and> unlinkHandler ex_ready ex_fs_locked [''in'', ''a.txt''] = Inl EACCES"
  by (simp add: ex_defs ex_fs_locked_def model_defs)

subsection \<open>Cancellation\<close>

lemma Sync_run_result:
  assumes "Sync_run n sigint this fs = Some (Inr (this', fs'))"
  shows "(\<exists>fs1. assertTarget fs (outArg this) = Inr fs1
            \<and> NaiveSync_run n (new_NaiveSync (inArg this) (outArg this)) fs1 = Some (Inr fs'))
    \<and> active this' =
        (if sigint then map_option ActiveSync_abort (active this)
         else if aborted this then active this
         else Some (ActiveSync_run (new_ActiveSync (inArg this) (outArg this))))"
  using assms
  by (auto simp: Sync_run_def Let_def normalizePath_def Sync_abort_def NaiveSync_abort_def
      NaiveSync_run_aborted_unread split: sum.splits option.splits if_splits)


text \<open>
  Claim C9. The abort marker of the initial engine is read nowhere: the clean-up, the
  copy loop and the whole of \<open>NaiveSync.run\<close> give the same result with the marker set
  (\<open>copyDirectory\<close> and \<open>copyFile\<close> do not even get the object). In the orchestrator a
  run that returns has carried out the complete initial synchronisation, aborted or
  not; what \<open>abort\<close> changes is what follows: when it was invoked before, or while the
  initial synchronisation was awaited, no \<open>ActiveSync\<close> is constructed and no watcher
  started, so that no event reaches a handler; otherwise the watcher is started.
\<close>

theorem abort_only_gates_the_watcher:
  "cleanupOutPath n (NaiveSync_abort nv) fs d = cleanupOutPath n nv fs d
   \<and> run_files n (NaiveSync_abort nv) fs files = run_files n nv fs files
   \<and> NaiveSync_run n (NaiveSync_abort nv) fs = NaiveSync_run n nv fs
   \<and> (Sync_run n sigint this fs = Some (Inr (this', fs')) \<longrightarrow>
        (\<exists>fs1. assertTarget fs (outArg this) = Inr fs1
           \<and> NaiveSync_run n (new_NaiveSync (inArg this) (outArg this)) fs1 = Some (Inr fs'))
        \<and> (\<not> sigint \<and> \<not> aborted this \<longrightarrow>
             active this' = Some (ActiveSync_run (new_ActiveSync (inArg this) (outArg this))))
        \<and> ((sigint \<or> aborted this) \<and> active this = None \<longrightarrow>
             active this' = None
             \<and> (\<forall>m fs'' ev. Sync_emit m this' fs'' ev = (this', Some (Inr fs'')))))"
proof -
  have "active this' = None \<and> (\<forall>m fs'' ev. Sync_emit m this' fs'' ev = (this', Some (Inr fs'')))"
    if "Sync_run n sigint this fs = Some (Inr (this', fs'))" "sigint \<or> aborted this"
      "active this = None"
  proof -
    from Sync_run_result [OF that(1)] that(2,3) have "active this' = None"
      by (auto split: if_splits)
    then show ?thesis by (simp add: Sync_emit_def)
  qed
  moreover have "active this' = Some (ActiveSync_run (new_ActiveSync (inArg this) (outArg this)))"
    if "Sync_run n sigint this fs = Some (Inr (this', fs'))" "\<not> sigint" "\<not> aborted this"
    using Sync_run_result [OF that(1)] that(2,3) by simp
  moreover have "\<exists>fs1. assertTarget fs (outArg this) = Inr fs1
           \<and> NaiveSync_run n (new_NaiveSync (inArg this) (outArg this)) fs1 = Some (Inr fs')"
    if "Sync_run n sigint this fs = Some (Inr (this', fs'))"
    using Sync_run_result [OF that] by blast
  moreover have "cleanupOutPath n (NaiveSync_abort nv) fs d = cleanupOutPath n nv fs d"
    and "run_files n (NaiveSync_abort nv) fs files = run_files n nv fs files"
    and "NaiveSync_run n (NaiveSync_abort nv) fs = NaiveSync_run n nv fs"
    by (simp_all add: NaiveSync_abort_def NaiveSync_aborted_unread run_files_aborted_unread
        NaiveSync_run_aborted_unread)
  ultimately show ?thesis
    by blast
qed

theorem abort_only_gates_the_watcher_witness:
  "Sync_run 3 True (new_Sync [''in''] [''out'']) ex_fs = Some (Inr (ex_sync_aborted, ex_fs_synced))
   \<and> NaiveSync_run 3 ex_naive ex_fs = Some (Inr ex_fs_synced)
   \<and> active ex_sync_aborted = None
   \<and> Sync_emit 3 ex_sync_aborted ex_fs_synced (Added [''in'', ''c.txt''])
       = (ex_sync_aborted, Some (Inr ex_fs_synced))"
proof -
  have run: "NaiveSync_run 3 ex_naive ex_fs = Some (Inr ex_fs_synced)"
    by (simp add: ex_defs model_defs numeral_3_eq_3)
  have at: "assertTarget ex_fs [''out''] = Inr ex_fs"
    and src: "assertSource ex_fs [''in''] = Inr ()"
    by (simp_all add: assertTarget_def assertSource_def isPath_def Validators_isDirectory_def
        Validators_canWrite_def Validators_canRead_def ex_defs model_defs)
  have s: "Sync_run 3 True (new_Sync [''in''] [''out'']) ex_fs
      = Some (Inr (ex_sync_aborted, ex_fs_synced))"
    using run at src
    by (simp add: Sync_run_def new_Sync_def normalizePath_def Sync_abort_def NaiveSync_abort_def
        ex_naive_def ex_sync_aborted_def NaiveSync_run_aborted_unread Let_def)
  have n: "active (new_Sync [''in''] [''out'']) = None"
    by (simp add: new_Sync_def)
  from abort_only_gates_the_watcher [of 3 ex_naive ex_fs "[]" "[]" True "new_Sync [''in''] [''out'']"
      ex_sync_aborted ex_fs_synced] s n run
  show ?thesis by auto
qed

subsection \<open>The clean-up of the destination\<close>

lemma stale_cong:
  "entry_at fs' (naive_outPath this @ r) = entry_at fs (naive_outPath this @ r) \<Longrightarrow>
   entry_at fs' (naive_inPath this @ r) = entry_at fs (naive_inPath this @ r) \<Longrightarrow>
   stale this fs' r = stale this fs r"
  by (simp add: stale_def kind_at_entry pathExists_entry)

lemma apart_source:
  "apart i out \<Longrightarrow> \<not> prefix out (i @ r)"
  unfolding apart_def
  by (metis prefix_same_cases prefixI)

lemma replace_first_prefix: "replace_first p (p @ r) = r"
proof (cases "p @ r")
  case Nil
  then show ?thesis by simp
next
  case (Cons x xs)
  have "prefix p (x # xs)"
    unfolding Cons [symmetric] by simp
  then have "replace_first p (x # xs) = drop (length p) (x # xs)"
    by simp
  then show ?thesis
    unfolding Cons [symmetric] by simp
qed

lemma cleanup_inDir_rel:
  "cleanup_inDir this (naive_outPath this @ rel) = naive_inPath this @ rel"
  by (simp add: cleanup_inDir_def join_path_def replace_first_prefix)

lemma map_of_map_snd:
  "map_of (map (\<lambda>e. (fst e, f (snd e))) al) x = map_option f (map_of al x)"
  by (induction al) auto

lemma readdir_map_of:
  "fs_readdir fs p = Inr files \<Longrightarrow> map_of files x = kind_at fs (p @ [x])"
  by (auto simp: fs_readdir_def kind_at_def lookup_append map_of_map_snd map_of_clearjunk
      split: option.splits node.splits if_splits)

lemma readdir_distinct:
  "fs_readdir fs p = Inr files \<Longrightarrow> distinct (map fst files)"
  by (auto simp: fs_readdir_def comp_def distinct_clearjunk
      split: option.splits node.splits if_splits)

lemma readdir_kinds:
  "fs_readdir fs p = Inr files \<Longrightarrow> (x, k) \<in> set files \<longleftrightarrow> kind_at fs (p @ [x]) = Some k"
  using readdir_map_of [of fs p files x] readdir_distinct [of fs p files]
  by (auto simp: map_of_eq_Some_iff)

lemma lookup_prefix_Some:
  "lookup t q = Some n \<Longrightarrow> prefix p q \<Longrightarrow> \<exists>m. lookup t p = Some m"
  by (auto simp: prefix_def lookup_append split: option.splits)

lemma same_child: "prefix (b @ [x]) r \<Longrightarrow> prefix (b @ [y]) r \<Longrightarrow> x = y"
  by (auto simp: prefix_def)

lemma doomed_insert:
  "doomed this fs base (insert x T) rel \<longleftrightarrow> doomed this fs base {x} rel \<or> doomed this fs base T rel"
  by (auto simp: doomed_def)

lemma doomed_empty: "\<not> doomed this fs base {} rel"
  by (simp add: doomed_def)

lemma cleaned_refl: "cleaned this base {} fs fs"
  by (simp add: cleaned_def doomed_empty)

lemma cleaned_compose:
  assumes ap: "apart (naive_inPath this) (naive_outPath this)"
    and h: "cleaned this base {x} fs fs1"
    and t: "cleaned this base T fs1 fs'"
    and x: "x \<notin> T"
  shows "cleaned this base (insert x T) fs fs'"
proof -
  have src: "entry_at fs1 (naive_inPath this @ r) = entry_at fs (naive_inPath this @ r)" for r
    using h apart_source [OF ap] by (simp add: cleaned_def)
  have st: "stale this fs1 r' = stale this fs r'" if "y \<in> T" "prefix (base @ [y]) r'" for r' y
  proof -
    have "\<not> doomed this fs base {x} r'"
    proof
      assume "doomed this fs base {x} r'"
      then obtain r'' where "prefix (base @ [x]) r''" "prefix r'' r'"
        by (auto simp: doomed_def)
      then have "prefix (base @ [x]) r'" by auto
      with that(2) have "x = y" by (metis same_child)
      with that(1) x show False by simp
    qed
    with h have "entry_at fs1 (naive_outPath this @ r') = entry_at fs (naive_outPath this @ r')"
      by (simp add: cleaned_def)
    then show ?thesis using src by (rule stale_cong)
  qed
  have d: "doomed this fs1 base T rel = doomed this fs base T rel" for rel
    unfolding doomed_def using st by blast
  have "entry_at fs' (naive_outPath this @ rel)
      = (if doomed this fs base (insert x T) rel then None
         else entry_at fs (naive_outPath this @ rel))" for rel
  proof -
    from t have "entry_at fs' (naive_outPath this @ rel)
        = (if doomed this fs1 base T rel then None else entry_at fs1 (naive_outPath this @ rel))"
      by (simp add: cleaned_def)
    moreover from h have "entry_at fs1 (naive_outPath this @ rel)
        = (if doomed this fs base {x} rel then None else entry_at fs (naive_outPath this @ rel))"
      by (simp add: cleaned_def)
    ultimately show ?thesis
      using d [of rel] doomed_insert [of this fs base x T rel] by simp
  qed
  moreover from h t have "now fs' = now fs"
    by (simp add: cleaned_def)
  moreover from h t have "\<forall>q. \<not> prefix (naive_outPath this) q \<longrightarrow> entry_at fs' q = entry_at fs q"
    by (simp add: cleaned_def)
  ultimately show ?thesis
    unfolding cleaned_def by blast
qed

lemma cleaned_listing:
  assumes "fs_readdir fs (naive_outPath this @ base) = Inr files"
    and "cleaned this base (fst ` set files) fs fs'"
  shows "cleaned this base UNIV fs fs'"
proof -
  have "doomed this fs base UNIV rel = doomed this fs base (fst ` set files) rel" for rel
  proof
    assume "doomed this fs base UNIV rel"
    then obtain r' x where r: "prefix (base @ [x]) r'" "prefix r' rel" "stale this fs r'"
      by (auto simp: doomed_def)
    from r(3) obtain n where "lookup (root fs) (naive_outPath this @ r') = Some n"
      by (auto simp: stale_def kind_at_def)
    moreover from r(1) have "prefix (naive_outPath this @ base @ [x]) (naive_outPath this @ r')"
      by simp
    ultimately obtain m where "lookup (root fs) (naive_outPath this @ base @ [x]) = Some m"
      using lookup_prefix_Some by blast
    then have "kind_at fs ((naive_outPath this @ base) @ [x]) = Some (kind_of m)"
      by (simp add: kind_at_def)
    with assms(1) have "(x, kind_of m) \<in> set files"
      by (simp add: readdir_kinds)
    then have "x \<in> fst ` set files" by force
    with r show "doomed this fs base (fst ` set files) rel"
      by (auto simp: doomed_def)
  qed (auto simp: doomed_def)
  with assms(2) show ?thesis by (simp add: cleaned_def)
qed

lemma not_doomed_leaf:
  assumes k: "kind_at fs (naive_outPath this @ base @ [x]) = Some k"
    and nd: "k \<noteq> IsDirectory"
    and keep: "k = IsOther \<or> pathExists fs (naive_inPath this @ base @ [x])"
  shows "\<not> doomed this fs base {x} rel"
proof
  assume "doomed this fs base {x} rel"
  then obtain r' where r: "prefix (base @ [x]) r'" "stale this fs r'"
    by (auto simp: doomed_def)
  show False
  proof (cases "r' = base @ [x]")
    case True
    with r(2) k keep show False
      by (auto simp: stale_def)
  next
    case False
    with r(1) have "strict_prefix (naive_outPath this @ base @ [x]) (naive_outPath this @ r')"
      by (auto simp: strict_prefix_def)
    from nothing_below_non_directory [OF k nd this] r(2) show False
      by (auto simp: stale_def kind_at_entry)
  qed
qed

lemma cleaned_kept:
  assumes "kind_at fs (naive_outPath this @ base @ [x]) = Some k"
    and "k \<noteq> IsDirectory"
    and "k = IsOther \<or> pathExists fs (naive_inPath this @ base @ [x])"
  shows "cleaned this base {x} fs fs"
  using not_doomed_leaf [OF assms] by (simp add: cleaned_def)

lemma cleaned_removed:
  assumes rm: "fs_rm fs (naive_outPath this @ base @ [x]) r = Inr fs1"
    and k: "kind_at fs (naive_outPath this @ base @ [x]) = Some IsFile
          \<or> kind_at fs (naive_outPath this @ base @ [x]) = Some IsDirectory"
    and gone: "\<not> pathExists fs (naive_inPath this @ base @ [x])"
  shows "cleaned this base {x} fs fs1"
proof -
  have st: "stale this fs (base @ [x])"
    using k gone by (simp add: stale_def)
  have "doomed this fs base {x} rel = prefix (base @ [x]) rel" for rel
  proof
    assume "doomed this fs base {x} rel"
    then show "prefix (base @ [x]) rel"
      by (auto simp: doomed_def)
  next
    assume "prefix (base @ [x]) rel"
    with st show "doomed this fs base {x} rel"
      unfolding doomed_def by blast
  qed
  moreover have "\<not> prefix (naive_outPath this @ base @ [x]) q"
    if "\<not> prefix (naive_outPath this) q" for q
    using that by (metis append_prefixD)
  ultimately show ?thesis
    using entry_at_rm [OF rm] by (simp add: cleaned_def)
qed

lemma cleaned_recursed:
  assumes c: "cleaned this (base @ [x]) UNIV fs fs1"
    and ex: "pathExists fs (naive_inPath this @ base @ [x])"
  shows "cleaned this base {x} fs fs1"
proof -
  have "doomed this fs (base @ [x]) UNIV rel = doomed this fs base {x} rel" for rel
  proof
    assume "doomed this fs (base @ [x]) UNIV rel"
    then obtain r' y where "prefix ((base @ [x]) @ [y]) r'" "prefix r' rel" "stale this fs r'"
      by (auto simp: doomed_def)
    moreover from this(1) have "prefix (base @ [x]) r'"
      by (metis append_prefixD)
    ultimately show "doomed this fs base {x} rel"
      unfolding doomed_def by blast
  next
    assume "doomed this fs base {x} rel"
    then obtain r' where r: "prefix (base @ [x]) r'" "prefix r' rel" "stale this fs r'"
      by (auto simp: doomed_def)
    from r(3) ex have "r' \<noteq> base @ [x]"
      by (auto simp: stale_def)
    with r(1) obtain y ys where "r' = (base @ [x]) @ y # ys"
      by (auto simp: prefix_def) (metis list.exhaust)
    then have "prefix ((base @ [x]) @ [y]) r'"
      by simp
    with r show "doomed this fs (base @ [x]) UNIV rel"
      unfolding doomed_def by blast
  qed
  with c show ?thesis by (simp add: cleaned_def)
qed

lemma cleanup_cleaned:
  assumes ap: "apart (naive_inPath this) (naive_outPath this)"
  shows "cleanupOutPath n this fs outDir = Some (Inr fs') \<Longrightarrow>
      outDir = naive_outPath this @ base \<Longrightarrow> cleaned this base UNIV fs fs'"
    and "cleanupOutPath_files n this fs outDir inDir files = Some (Inr fs') \<Longrightarrow>
      outDir = naive_outPath this @ base \<Longrightarrow> inDir = naive_inPath this @ base \<Longrightarrow>
      distinct (map fst files) \<Longrightarrow>
      (\<forall>x k. (x, k) \<in> set files \<longrightarrow> kind_at fs (naive_outPath this @ base @ [x]) = Some k) \<Longrightarrow>
      cleaned this base (fst ` set files) fs fs'"
  using ap
proof (induction n this fs outDir and n this fs outDir inDir files
    arbitrary: fs' base and fs' base rule: cleanupOutPath_cleanupOutPath_files.induct)
  case (1 this fs outDir)
  then show ?case by simp
next
  case (2 n this fs outDir)
  from "2.prems"(1) obtain files where
    rd: "fs_readdir fs outDir = Inr files"
    and run: "cleanupOutPath_files n this fs outDir (cleanup_inDir this outDir) files = Some (Inr fs')"
    by (auto split: sum.splits)
  have "cleaned this base (fst ` set files) fs fs'"
  proof (rule "2.IH" [OF rd run "2.prems"(2)])
    show "cleanup_inDir this outDir = naive_inPath this @ base"
      by (simp add: "2.prems"(2) cleanup_inDir_rel)
    show "distinct (map fst files)"
      using rd by (rule readdir_distinct)
    show "\<forall>x k. (x, k) \<in> set files \<longrightarrow> kind_at fs (naive_outPath this @ base @ [x]) = Some k"
      using readdir_kinds [OF rd] by (simp add: "2.prems"(2))
    show "apart (naive_inPath this) (naive_outPath this)"
      by (rule "2.prems"(3))
  qed
  with rd show ?case
    unfolding "2.prems"(2) by (rule cleaned_listing)
next
  case (3 n this fs outDir inDir)
  then show ?case by (simp add: cleaned_refl)
next
  case (4 n this fs outDir inDir ent files)
  obtain x k where ent: "ent = (x, k)" by (cases ent)
  let ?src = "naive_inPath this @ base @ [x]"
  let ?target = "naive_outPath this @ base @ [x]"
  let ?body = "if pathExists fs ?src \<and> isFile k then Some (Inr fs)
               else if pathExists fs ?src \<and> isDirectory k then cleanupOutPath n this fs ?target
               else if isDirectory k then Some (fs_rm fs ?target True)
               else if isFile k then Some (fs_rm fs ?target False)
               else Some (Inr fs)"
  note ap = "4.prems"(6)
  have jn: "join inDir x = ?src" "join outDir x = ?target"
    by (simp_all add: join_def "4.prems"(2,3))
  from "4.prems"(1) have "(case ?body of None \<Rightarrow> None | Some (Inl e) \<Rightarrow> Some (Inl e)
      | Some (Inr fs1) \<Rightarrow> cleanupOutPath_files n this fs1 outDir inDir files) = Some (Inr fs')"
    by (simp add: ent jn Let_def cong: if_cong)
  then obtain fs1 where
    body: "?body = Some (Inr fs1)"
    and rest: "cleanupOutPath_files n this fs1 outDir inDir files = Some (Inr fs')"
    by (auto split: option.splits sum.splits)
  from "4.prems"(5) have k: "kind_at fs ?target = Some k"
    by (simp add: ent)
  have head: "cleaned this base {x} fs fs1"
  proof (cases k)
    case IsFile
    show ?thesis
    proof (cases "pathExists fs ?src")
      case True
      with body IsFile have "fs1 = fs" by (simp add: isFile_def)
      with cleaned_kept [OF k] IsFile True show ?thesis by simp
    next
      case False
      with body IsFile have "fs_rm fs ?target False = Inr fs1"
        by (simp add: isFile_def isDirectory_def)
      then show ?thesis
        using k IsFile False by (intro cleaned_removed) auto
    qed
  next
    case IsDirectory
    show ?thesis
    proof (cases "pathExists fs ?src")
      case True
      with body IsDirectory have rec: "cleanupOutPath n this fs ?target = Some (Inr fs1)"
        by (simp add: isFile_def isDirectory_def)
      have "cleaned this (base @ [x]) UNIV fs fs1"
      proof (rule "4.IH"(1) [OF refl refl refl])
        show "\<not> (pathExists fs (join inDir (fst ent)) \<and> isFile (snd ent))"
          using IsDirectory by (simp add: ent isFile_def)
        show "pathExists fs (join inDir (fst ent)) \<and> isDirectory (snd ent)"
          using IsDirectory True by (simp add: ent jn isDirectory_def)
        show "cleanupOutPath n this fs (join outDir (fst ent)) = Some (Inr fs1)"
          using rec by (simp add: ent jn)
        show "join outDir (fst ent) = naive_outPath this @ base @ [x]"
          by (simp add: ent jn)
        show "apart (naive_inPath this) (naive_outPath this)"
          by (rule ap)
      qed
      then show ?thesis using True by (rule cleaned_recursed)
    next
      case False
      with body IsDirectory have "fs_rm fs ?target True = Inr fs1"
        by (simp add: isFile_def isDirectory_def)
      then show ?thesis
        using k IsDirectory False by (intro cleaned_removed) auto
    qed
  next
    case IsOther
    with body have "fs1 = fs" by (simp add: isFile_def isDirectory_def)
    with cleaned_kept [OF k] IsOther show ?thesis by simp
  qed
  have tail: "cleaned this base (fst ` set files) fs1 fs'"
  proof (rule "4.IH"(2) [OF refl refl refl _ refl rest "4.prems"(2,3)])
    show "(if pathExists fs (join inDir (fst ent)) \<and> isFile (snd ent) then Some (Inr fs)
        else if pathExists fs (join inDir (fst ent)) \<and> isDirectory (snd ent)
          then cleanupOutPath n this fs (join outDir (fst ent))
        else if isDirectory (snd ent) then Some (fs_rm fs (join outDir (fst ent)) True)
        else if isFile (snd ent) then Some (fs_rm fs (join outDir (fst ent)) False)
        else Some (Inr fs)) = Some (Inr fs1)"
      using body by (simp add: ent jn cong: if_cong)
    show "distinct (map fst files)"
      using "4.prems"(4) by simp
    show "\<forall>y k'. (y, k') \<in> set files \<longrightarrow> kind_at fs1 (naive_outPath this @ base @ [y]) = Some k'"
    proof (intro allI impI)
      fix y k' assume yk: "(y, k') \<in> set files"
      with "4.prems"(4) have "y \<noteq> x"
        by (force simp: ent)
      then have "\<not> doomed this fs base {x} (base @ [y])"
        by (auto simp: doomed_def dest: prefix_order.order_trans)
      with head have "entry_at fs1 (naive_outPath this @ base @ [y]) = entry_at fs (naive_outPath this @ base @ [y])"
        by (simp add: cleaned_def)
      with "4.prems"(5) yk show "kind_at fs1 (naive_outPath this @ base @ [y]) = Some k'"
        by (simp add: kind_at_entry)
    qed
    show "apart (naive_inPath this) (naive_outPath this)"
      by (rule ap)
  qed
  have "x \<notin> fst ` set files"
    using "4.prems"(4) by (simp add: ent)
  from cleaned_compose [OF ap head tail this] show ?case
    by (simp add: ent)
qed

lemma size_child: "(x, c) \<in> set es \<Longrightarrow> size c < size (Dir a es)"
  by (induction es) auto

lemma lookup_length: "lookup t r = Some m \<Longrightarrow> length r \<le> size t"
proof (induction t r rule: lookup.induct)
  case (2 a es x p)
  then obtain c where c: "map_of es x = Some c" "lookup c p = Some m"
    by (auto split: option.splits)
  from c(1) have "(x, c) \<in> set es" by (rule map_of_SomeD)
  then have "size c < size (Dir a es)" by (rule size_child)
  with 2 c show ?case by force
qed auto

lemma shallower_size: "shallower fs p (Suc (size (root fs)))"
  unfolding shallower_def
proof (intro allI impI)
  fix r assume "entry_at fs (p @ r) \<noteq> None"
  then obtain m where "lookup (root fs) (p @ r) = Some m"
    by (auto simp: entry_at_def view_def)
  then have "length (p @ r) \<le> size (root fs)" by (rule lookup_length)
  then show "length r < Suc (size (root fs))" by simp
qed

lemma shallower_child: "shallower fs p (Suc n) \<Longrightarrow> shallower fs (p @ [x]) n"
  by (force simp: shallower_def)

lemma cleaned_subset:
  "cleaned this base X fs fs' \<Longrightarrow> entry_at fs' q \<noteq> None \<Longrightarrow> entry_at fs' q = entry_at fs q"
proof (cases "prefix (naive_outPath this) q")
  case True
  assume c: "cleaned this base X fs fs'" and e: "entry_at fs' q \<noteq> None"
  from True obtain rel where q: "q = naive_outPath this @ rel"
    by (auto simp: prefix_def)
  from c have "entry_at fs' (naive_outPath this @ rel)
      = (if doomed this fs base X rel then None else entry_at fs (naive_outPath this @ rel))"
    unfolding cleaned_def by blast
  with e show ?thesis
    unfolding q by (cases "doomed this fs base X rel") simp_all
next
  case False
  assume "cleaned this base X fs fs'"
  with False show ?thesis by (simp add: cleaned_def)
qed

lemma shallower_cleaned:
  "cleaned this base X fs fs' \<Longrightarrow> shallower fs p n \<Longrightarrow> shallower fs' p n"
  unfolding shallower_def by (metis cleaned_subset)

lemma readdir_directory:
  assumes "entry_at fs p = Some (IsDirectory, a, c)" and "readable a"
  obtains files where "fs_readdir fs p = Inr files"
proof -
  from assms(1) obtain z where z: "lookup (root fs) p = Some z" "shallow z = (IsDirectory, a, c)"
    by (auto simp: entry_at_def view_def)
  then obtain es where "z = Dir a es" by (cases z) (auto simp: shallow_def)
  with z assms(2) that show thesis by (simp add: fs_readdir_def)
qed

lemma unlocked_node_view:
  "unlocked_node n \<Longrightarrow> view n r = Some (IsDirectory, a, c) \<Longrightarrow> readable a \<and> writable a"
proof (induction r arbitrary: n)
  case Nil
  then show ?case by (cases n) (auto simp: view_def shallow_def)
next
  case (Cons x r)
  from Cons.prems(2) obtain a' es where n: "n = Dir a' es"
    by (cases n) (auto simp: view_def)
  with Cons.prems(2) obtain m where m: "map_of es x = Some m" "view m r = Some (IsDirectory, a, c)"
    by (auto simp: view_def split: option.splits)
  from m(1) have "map_of (AList.clearjunk es) x = Some m"
    by (simp add: map_of_clearjunk)
  then have "(x, m) \<in> set (AList.clearjunk es)"
    by (rule map_of_SomeD)
  with Cons.prems(1) have "unlocked_node m"
    by (auto simp: n)
  from Cons.IH [OF this m(2)] show ?case .
qed

lemma unlocked_entry:
  assumes "unlocked fs p" and "entry_at fs (p @ r) = Some (IsDirectory, a, c)"
  shows "readable a \<and> writable a"
proof -
  from assms(2) obtain n where n: "lookup (root fs) p = Some n" "view n r = Some (IsDirectory, a, c)"
    by (auto simp: entry_at_def view_def lookup_append split: option.splits)
  with assms(1) have "unlocked_node n"
    by (simp add: unlocked_def)
  then show ?thesis using n(2) by (rule unlocked_node_view)
qed

lemma removable_open:
  "(\<And>r a c. view n r = Some (IsDirectory, a, c) \<Longrightarrow> readable a \<and> writable a) \<Longrightarrow> removable n"
proof (induction n rule: removable.induct)
  case (1 a es)
  have top: "readable a \<and> writable a"
    using "1.prems" [of "[]"] by (simp add: view_def shallow_def)
  have "removable (snd e)" if e: "e \<in> set (AList.clearjunk es)" for e
  proof -
    from e have "map_of (AList.clearjunk es) (fst e) = Some (snd e)"
      by (simp add: distinct_clearjunk)
    then have m: "map_of es (fst e) = Some (snd e)"
      by (simp add: map_of_clearjunk)
    then have ne: "es \<noteq> []" by auto
    have "readable a' \<and> writable a'" if "view (snd e) r = Some (IsDirectory, a', c')" for r a' c'
      using "1.prems" [of "fst e # r" a' c'] that m by (simp add: view_def)
    with "1.IH" ne top e show ?thesis by blast
  qed
  with top show ?case by simp
qed simp_all

lemma rm_open:
  assumes k: "kind_at fs (d @ [x]) = Some k"
    and r: "k = IsDirectory \<longrightarrow> r"
    and op: "\<forall>q a c. entry_at fs (d @ q) = Some (IsDirectory, a, c) \<longrightarrow> readable a \<and> writable a"
  shows "\<exists>fs1. fs_rm fs (d @ [x]) r = Inr fs1"
proof -
  from k obtain n where n: "lookup (root fs) (d @ [x]) = Some n" "kind_of n = k"
    by (auto simp: kind_at_def)
  from lookup_snoc_Some [OF n(1)] obtain a es where par: "lookup (root fs) d = Some (Dir a es)"
    by blast
  then have "entry_at fs (d @ []) = Some (IsDirectory, a, None)"
    by (simp add: entry_at_def view_def shallow_def)
  with op have w: "writable a" by blast
  have "removable n"
  proof (rule removable_open)
    fix q a' c' assume "view n q = Some (IsDirectory, a', c')"
    with n(1) have "entry_at fs (d @ [x] @ q) = Some (IsDirectory, a', c')"
      using lookup_append [of "root fs" "d @ [x]" q] by (simp add: entry_at_def view_def)
    with op show "readable a' \<and> writable a'" by blast
  qed
  with n par w r show ?thesis
    by (simp add: fs_rm_def dirname_def)
qed

lemma cleanup_returns:
  assumes ap: "apart (naive_inPath this) (naive_outPath this)"
  shows "outDir = naive_outPath this @ base \<Longrightarrow> shallower fs outDir n \<Longrightarrow>
      kind_at fs outDir = Some IsDirectory \<Longrightarrow>
      (\<forall>q a c. entry_at fs (outDir @ q) = Some (IsDirectory, a, c) \<longrightarrow> readable a \<and> writable a) \<Longrightarrow>
      \<exists>fs'. cleanupOutPath n this fs outDir = Some (Inr fs')"
    and "outDir = naive_outPath this @ base \<Longrightarrow> inDir = naive_inPath this @ base \<Longrightarrow>
      distinct (map fst files) \<Longrightarrow>
      (\<forall>x k. (x, k) \<in> set files \<longrightarrow> kind_at fs (naive_outPath this @ base @ [x]) = Some k) \<Longrightarrow>
      (\<forall>x k. (x, k) \<in> set files \<longrightarrow> shallower fs (naive_outPath this @ base @ [x]) n) \<Longrightarrow>
      (\<forall>q a c. entry_at fs (outDir @ q) = Some (IsDirectory, a, c) \<longrightarrow> readable a \<and> writable a) \<Longrightarrow>
      \<exists>fs'. cleanupOutPath_files n this fs outDir inDir files = Some (Inr fs')"
  using ap
proof (induction n this fs outDir and n this fs outDir inDir files
    arbitrary: base and base rule: cleanupOutPath_cleanupOutPath_files.induct)
  case (1 this fs outDir)
  from "1.prems"(3) have "entry_at fs (outDir @ []) \<noteq> None"
    by (auto simp: kind_at_entry)
  with "1.prems"(2) show ?case
    unfolding shallower_def by blast
next
  case (2 n this fs outDir)
  from "2.prems"(3) obtain a c where "entry_at fs (outDir @ []) = Some (IsDirectory, a, c)"
    by (auto simp: kind_at_entry)
  moreover from this "2.prems"(4) have "readable a" by blast
  ultimately obtain files where rd: "fs_readdir fs outDir = Inr files"
    using readdir_directory [of fs outDir a c] by auto
  have "\<exists>fs'. cleanupOutPath_files n this fs outDir (cleanup_inDir this outDir) files = Some (Inr fs')"
  proof (rule "2.IH" [OF rd "2.prems"(1)])
    show "cleanup_inDir this outDir = naive_inPath this @ base"
      by (simp add: "2.prems"(1) cleanup_inDir_rel)
    show "distinct (map fst files)"
      using rd by (rule readdir_distinct)
    show "\<forall>x k. (x, k) \<in> set files \<longrightarrow> kind_at fs (naive_outPath this @ base @ [x]) = Some k"
      using readdir_kinds [OF rd] by (simp add: "2.prems"(1))
    show "\<forall>x k. (x, k) \<in> set files \<longrightarrow> shallower fs (naive_outPath this @ base @ [x]) n"
      using shallower_child [OF "2.prems"(2)] by (simp add: "2.prems"(1))
    show "\<forall>q a c. entry_at fs (outDir @ q) = Some (IsDirectory, a, c) \<longrightarrow> readable a \<and> writable a"
      by (rule "2.prems"(4))
    show "apart (naive_inPath this) (naive_outPath this)"
      by (rule "2.prems"(5))
  qed
  with rd show ?case by simp
next
  case (3 n this fs outDir inDir)
  show ?case by simp
next
  case (4 n this fs outDir inDir ent files)
  obtain x k where ent: "ent = (x, k)" by (cases ent)
  let ?src = "naive_inPath this @ base @ [x]"
  let ?target = "naive_outPath this @ base @ [x]"
  let ?body = "if pathExists fs ?src \<and> isFile k then Some (Inr fs)
               else if pathExists fs ?src \<and> isDirectory k then cleanupOutPath n this fs ?target
               else if isDirectory k then Some (fs_rm fs ?target True)
               else if isFile k then Some (fs_rm fs ?target False)
               else Some (Inr fs)"
  note op = "4.prems"(6)
  note ap = "4.prems"(7)
  have jn: "join inDir x = ?src" "join outDir x = ?target"
    by (simp_all add: join_def "4.prems"(1,2))
  have unfold: "cleanupOutPath_files n this fs outDir inDir (ent # fl)
      = (case ?body of None \<Rightarrow> None | Some (Inl e) \<Rightarrow> Some (Inl e)
         | Some (Inr fs1) \<Rightarrow> cleanupOutPath_files n this fs1 outDir inDir fl)" for fl
    by (simp add: ent jn Let_def cong: if_cong)
  from "4.prems"(4) have k: "kind_at fs ?target = Some k"
    by (simp add: ent)
  from "4.prems"(5) have sh: "shallower fs ?target n"
    by (simp add: ent)
  have rm: "\<exists>fs1. fs_rm fs ?target r = Inr fs1" if "k = IsDirectory \<longrightarrow> r" for r
    using rm_open [of fs outDir x k r] k that op by (simp add: "4.prems"(1))
  have "\<exists>fs1. ?body = Some (Inr fs1)"
  proof (cases "pathExists fs ?src \<and> isDirectory k")
    case True
    have "\<exists>fs1. cleanupOutPath n this fs (join outDir (fst ent)) = Some (Inr fs1)"
    proof (rule "4.IH"(1) [OF refl refl refl])
      show "\<not> (pathExists fs (join inDir (fst ent)) \<and> isFile (snd ent))"
        using True by (simp add: ent isFile_def isDirectory_def)
      show "pathExists fs (join inDir (fst ent)) \<and> isDirectory (snd ent)"
        using True by (simp add: ent jn)
      show "join outDir (fst ent) = naive_outPath this @ base @ [x]"
        by (simp add: ent jn)
      show "shallower fs (join outDir (fst ent)) n"
        using sh by (simp add: ent jn)
      show "kind_at fs (join outDir (fst ent)) = Some IsDirectory"
        using k True by (simp add: ent jn isDirectory_def)
      show "\<forall>q a c. entry_at fs (join outDir (fst ent) @ q) = Some (IsDirectory, a, c) \<longrightarrow>
          readable a \<and> writable a"
        using op by (simp add: ent join_def)
      show "apart (naive_inPath this) (naive_outPath this)"
        by (rule ap)
    qed
    with True show ?thesis
      by (simp add: ent jn isFile_def isDirectory_def)
  next
    case False
    with rm [of True] rm [of False] show ?thesis
      by (auto simp: isFile_def isDirectory_def)
  qed
  then obtain fs1 where body: "?body = Some (Inr fs1)" ..
  have "cleanupOutPath_files n this fs outDir inDir [ent] = Some (Inr fs1)"
    unfolding unfold using body by simp
  from cleanup_cleaned(2) [OF ap this "4.prems"(1,2)] k
  have head: "cleaned this base {x} fs fs1"
    by (simp add: ent)
  have "\<exists>fs'. cleanupOutPath_files n this fs1 outDir inDir files = Some (Inr fs')"
  proof (rule "4.IH"(2) [OF refl refl refl _ refl "4.prems"(1,2)])
    show "(if pathExists fs (join inDir (fst ent)) \<and> isFile (snd ent) then Some (Inr fs)
        else if pathExists fs (join inDir (fst ent)) \<and> isDirectory (snd ent)
          then cleanupOutPath n this fs (join outDir (fst ent))
        else if isDirectory (snd ent) then Some (fs_rm fs (join outDir (fst ent)) True)
        else if isFile (snd ent) then Some (fs_rm fs (join outDir (fst ent)) False)
        else Some (Inr fs)) = Some (Inr fs1)"
      using body by (simp add: ent jn cong: if_cong)
    show "distinct (map fst files)"
      using "4.prems"(3) by simp
    show "\<forall>y k'. (y, k') \<in> set files \<longrightarrow> kind_at fs1 (naive_outPath this @ base @ [y]) = Some k'"
    proof (intro allI impI)
      fix y k' assume yk: "(y, k') \<in> set files"
      with "4.prems"(3) have "y \<noteq> x"
        by (force simp: ent)
      then have "\<not> doomed this fs base {x} (base @ [y])"
        by (auto simp: doomed_def dest: prefix_order.order_trans)
      with head have "entry_at fs1 (naive_outPath this @ base @ [y]) = entry_at fs (naive_outPath this @ base @ [y])"
        by (simp add: cleaned_def)
      with "4.prems"(4) yk show "kind_at fs1 (naive_outPath this @ base @ [y]) = Some k'"
        by (simp add: kind_at_entry)
    qed
    show "\<forall>y k'. (y, k') \<in> set files \<longrightarrow> shallower fs1 (naive_outPath this @ base @ [y]) n"
      using "4.prems"(5) shallower_cleaned [OF head] by simp
    show "\<forall>q a c. entry_at fs1 (outDir @ q) = Some (IsDirectory, a, c) \<longrightarrow> readable a \<and> writable a"
    proof (intro allI impI)
      fix q a c assume e: "entry_at fs1 (outDir @ q) = Some (IsDirectory, a, c)"
      with cleaned_subset [OF head, of "outDir @ q"]
      have "entry_at fs (outDir @ q) = Some (IsDirectory, a, c)" by simp
      with op show "readable a \<and> writable a" by blast
    qed
    show "apart (naive_inPath this) (naive_outPath this)"
      by (rule ap)
  qed
  with body show ?case
    unfolding unfold by simp
qed

lemma cleanup_total:
  assumes "apart (naive_inPath this) (naive_outPath this)"
    and "kind_at fs (naive_outPath this) = Some IsDirectory"
    and "unlocked fs (naive_outPath this)"
  shows "\<exists>fs'. cleanupOutPath (Suc (size (root fs))) this fs (naive_outPath this) = Some (Inr fs')"
proof (rule cleanup_returns(1) [OF assms(1) _ shallower_size assms(2), where base = "[]"])
  show "\<forall>q a c. entry_at fs (naive_outPath this @ q) = Some (IsDirectory, a, c) \<longrightarrow>
      readable a \<and> writable a"
    using unlocked_entry [OF assms(3)] by blast
qed simp

lemma cleanup_step_file:
  "\<not> pathExists fs (join inDir x) \<Longrightarrow>
   cleanupOutPath_files n this fs outDir inDir ((x, IsFile) # files)
     = (case fs_rm fs (join outDir x) False of
          Inl e \<Rightarrow> Some (Inl e)
        | Inr fs1 \<Rightarrow> cleanupOutPath_files n this fs1 outDir inDir files)"
  by (simp add: isFile_def isDirectory_def split: sum.split)

lemma cleanup_step_directory:
  "\<not> pathExists fs (join inDir x) \<Longrightarrow>
   cleanupOutPath_files n this fs outDir inDir ((x, IsDirectory) # files)
     = (case fs_rm fs (join outDir x) True of
          Inl e \<Rightarrow> Some (Inl e)
        | Inr fs1 \<Rightarrow> cleanupOutPath_files n this fs1 outDir inDir files)"
  by (simp add: isFile_def isDirectory_def split: sum.split)

lemma cleanup_step_kept:
  "pathExists fs (join inDir x) \<Longrightarrow>
   cleanupOutPath_files n this fs outDir inDir ((x, IsFile) # files)
     = cleanupOutPath_files n this fs outDir inDir files"
  by (simp add: isFile_def)

text \<open>
  Claim C5. Source and destination folder lie apart and the destination is a
  directory. Whenever the clean-up has returned, every file and every directory of
  the destination whose mapped source path does not exist is gone, with everything
  below it: the loop deletes such a file with \<^verbatim>\<open>rm(target)\<close> and such a directory with
  \<^verbatim>\<open>rm(target, { recursive: true })\<close>. And the clean-up does return when nothing is
  refused to it, which is so when every directory of the destination can be read and
  written to; a refused \<^verbatim>\<open>readdir\<close> or \<^verbatim>\<open>rm\<close> ends it with that error.
\<close>

theorem cleanup_deletes_entries_without_source:
  assumes "apart (naive_inPath this) (naive_outPath this)"
    and "kind_at fs (naive_outPath this) = Some IsDirectory"
    and "rel \<noteq> []"
    and "kind_at fs (naive_outPath this @ rel) = Some IsFile
       \<or> kind_at fs (naive_outPath this @ rel) = Some IsDirectory"
    and "\<not> pathExists fs (naive_inPath this @ rel)"
  shows "(unlocked fs (naive_outPath this) \<longrightarrow>
            (\<exists>n fs'. cleanupOutPath n this fs (naive_outPath this) = Some (Inr fs')))
    \<and> (\<forall>n fs'. cleanupOutPath n this fs (naive_outPath this) = Some (Inr fs') \<longrightarrow>
          (\<forall>below. entry_at fs' (naive_outPath this @ rel @ below) = None))
    \<and> (\<forall>n st outDir inDir x files. \<not> pathExists st (join inDir x) \<longrightarrow>
          cleanupOutPath_files n this st outDir inDir ((x, IsFile) # files)
            = (case fs_rm st (join outDir x) False of
                 Inl e \<Rightarrow> Some (Inl e)
               | Inr fs1 \<Rightarrow> cleanupOutPath_files n this fs1 outDir inDir files)
          \<and> cleanupOutPath_files n this st outDir inDir ((x, IsDirectory) # files)
            = (case fs_rm st (join outDir x) True of
                 Inl e \<Rightarrow> Some (Inl e)
               | Inr fs1 \<Rightarrow> cleanupOutPath_files n this fs1 outDir inDir files))"
proof -
  have "\<exists>n fs'. cleanupOutPath n this fs (naive_outPath this) = Some (Inr fs')"
    if "unlocked fs (naive_outPath this)"
    using cleanup_total [OF assms(1,2) that] by blast
  moreover have "entry_at fs' (naive_outPath this @ rel @ below) = None"
    if run: "cleanupOutPath n this fs (naive_outPath this) = Some (Inr fs')" for n fs' below
  proof -
    from cleanup_cleaned(1) [OF assms(1) run, of "[]"]
    have c: "cleaned this [] UNIV fs fs'" by simp
    from assms(3) obtain x xs where rel: "rel = x # xs" by (cases rel) auto
    have "stale this fs rel"
      using assms(3-5) by (simp add: stale_def)
    then have "doomed this fs [] UNIV (rel @ below)"
      unfolding doomed_def rel by (intro exI [of _ "x # xs"] exI [of _ x]) simp
    with c show ?thesis by (simp add: cleaned_def)
  qed
  ultimately show ?thesis
    using cleanup_step_file cleanup_step_directory by blast
qed

theorem cleanup_deletes_entries_without_source_witness:
  "apart (naive_inPath ex_naive) (naive_outPath ex_naive)
   \<and> kind_at ex_fs (naive_outPath ex_naive @ [''stale.txt'']) = Some IsFile
   \<and> \<not> pathExists ex_fs (naive_inPath ex_naive @ [''stale.txt''])
   \<and> unlocked ex_fs (naive_outPath ex_naive)
   \<and> cleanupOutPath 3 ex_naive ex_fs (naive_outPath ex_naive) = Some (Inr ex_fs_cleaned)
   \<and> entry_at ex_fs_cleaned [''out'', ''stale.txt''] = None
   \<and> \<not> unlocked ex_fs_locked (naive_outPath ex_naive)
   \<and> kind_at ex_fs_locked (naive_outPath ex_naive @ [''stale.txt'']) = Some IsFile
   \<and> \<not> pathExists ex_fs_locked (naive_inPath ex_naive @ [''stale.txt''])
   \<and> cleanupOutPath 3 ex_naive ex_fs_locked (naive_outPath ex_naive) = Some (Inl EACCES)"
proof -
  have a: "apart (naive_inPath ex_naive) (naive_outPath ex_naive)"
    by (simp add: apart_def ex_defs model_defs)
  have d: "kind_at ex_fs (naive_outPath ex_naive) = Some IsDirectory"
    by (simp add: ex_defs model_defs)
  have r: "[''stale.txt''] \<noteq> []"
    by simp
  have k: "kind_at ex_fs (naive_outPath ex_naive @ [''stale.txt'']) = Some IsFile
      \<or> kind_at ex_fs (naive_outPath ex_naive @ [''stale.txt'']) = Some IsDirectory"
    by (simp add: ex_defs model_defs)
  have s: "\<not> pathExists ex_fs (naive_inPath ex_naive @ [''stale.txt''])"
    by (simp add: ex_defs model_defs)
  have u: "unlocked ex_fs (naive_outPath ex_naive)"
    by (simp add: unlocked_def ex_defs model_defs)
  have c: "cleanupOutPath 3 ex_naive ex_fs (naive_outPath ex_naive) = Some (Inr ex_fs_cleaned)"
    by (simp add: ex_defs ex_fs_cleaned_def model_defs numeral_3_eq_3)
  have l: "\<not> unlocked ex_fs_locked (naive_outPath ex_naive)"
    by (simp add: unlocked_def ex_defs ex_fs_locked_def model_defs)
  have kl: "kind_at ex_fs_locked (naive_outPath ex_naive @ [''stale.txt'']) = Some IsFile"
    by (simp add: ex_defs ex_fs_locked_def model_defs)
  have g: "\<not> pathExists ex_fs_locked (naive_inPath ex_naive @ [''stale.txt''])"
    by (simp add: ex_defs ex_fs_locked_def model_defs)
  have rf: "cleanupOutPath 3 ex_naive ex_fs_locked (naive_outPath ex_naive) = Some (Inl EACCES)"
    by (simp add: ex_defs ex_fs_locked_def model_defs numeral_3_eq_3)
  note t = cleanup_deletes_entries_without_source [OF a d r k s]
  from t c have "entry_at ex_fs_cleaned (naive_outPath ex_naive @ [''stale.txt''] @ []) = None"
    by blast
  moreover have "naive_outPath ex_naive = [''out'']"
    by (simp add: ex_defs model_defs)
  moreover have "kind_at ex_fs (naive_outPath ex_naive @ [''stale.txt'']) = Some IsFile"
    by (simp add: ex_defs model_defs)
  ultimately show ?thesis
    using a s u c l kl g rf by simp
qed

text \<open>
  Claim C6. A file of the destination whose mapped source path exists is kept by the
  clean-up as it is, whatever the kind of the source entry: the loop goes on to the
  next entry once \<open>pathExists\<close> has answered, and reads nothing else of the source.
  The witness is a destination file whose source counterpart is a directory.
\<close>

theorem cleanup_keeps_file_whatever_the_source:
  assumes "apart (naive_inPath this) (naive_outPath this)"
    and "cleanupOutPath n this fs (naive_outPath this) = Some (Inr fs')"
    and "kind_at fs (naive_outPath this @ rel) = Some IsFile"
    and "pathExists fs (naive_inPath this @ rel)"
  shows "entry_at fs' (naive_outPath this @ rel) = entry_at fs (naive_outPath this @ rel)
    \<and> (\<forall>m st outDir inDir x files. pathExists st (join inDir x) \<longrightarrow>
          cleanupOutPath_files m this st outDir inDir ((x, IsFile) # files)
            = cleanupOutPath_files m this st outDir inDir files)"
proof -
  from cleanup_cleaned(1) [OF assms(1,2), of "[]"]
  have c: "cleaned this [] UNIV fs fs'" by simp
  have "\<not> doomed this fs [] UNIV rel"
  proof
    assume "doomed this fs [] UNIV rel"
    then obtain r' where r: "prefix r' rel" "stale this fs r'"
      by (auto simp: doomed_def)
    from assms(4) obtain m where "lookup (root fs) (naive_inPath this @ rel) = Some m"
      by (auto simp: pathExists_iff)
    moreover from r(1) have "prefix (naive_inPath this @ r') (naive_inPath this @ rel)"
      by simp
    ultimately have "pathExists fs (naive_inPath this @ r')"
      using lookup_prefix_Some by (fastforce simp: pathExists_iff)
    with r(2) show False by (simp add: stale_def)
  qed
  with c have "entry_at fs' (naive_outPath this @ rel) = entry_at fs (naive_outPath this @ rel)"
    by (simp add: cleaned_def)
  then show ?thesis
    using cleanup_step_kept by blast
qed

theorem cleanup_keeps_file_whatever_the_source_witness:
  "apart (naive_inPath ex_naive) (naive_outPath ex_naive)
   \<and> cleanupOutPath 3 ex_naive ex_fs_filedir (naive_outPath ex_naive) = Some (Inr ex_fs_filedir)
   \<and> kind_at ex_fs_filedir (naive_outPath ex_naive @ [''sub'']) = Some IsFile
   \<and> kind_at ex_fs_filedir (naive_inPath ex_naive @ [''sub'']) = Some IsDirectory
   \<and> entry_at ex_fs_filedir (naive_outPath ex_naive @ [''sub''])
       = Some (IsFile, ex_attrs 40, Some ''was a file'')"
proof -
  have a: "apart (naive_inPath ex_naive) (naive_outPath ex_naive)"
    by (simp add: apart_def ex_defs model_defs)
  have c: "cleanupOutPath 3 ex_naive ex_fs_filedir (naive_outPath ex_naive) = Some (Inr ex_fs_filedir)"
    by (simp add: ex_defs ex_fs_filedir_def model_defs numeral_3_eq_3)
  have k: "kind_at ex_fs_filedir (naive_outPath ex_naive @ [''sub'']) = Some IsFile"
    by (simp add: ex_defs ex_fs_filedir_def model_defs)
  have s: "pathExists ex_fs_filedir (naive_inPath ex_naive @ [''sub''])"
    by (simp add: ex_defs ex_fs_filedir_def model_defs)
  have d: "kind_at ex_fs_filedir (naive_inPath ex_naive @ [''sub'']) = Some IsDirectory"
    by (simp add: ex_defs ex_fs_filedir_def model_defs)
  have e: "entry_at ex_fs_filedir (naive_outPath ex_naive @ [''sub''])
       = Some (IsFile, ex_attrs 40, Some ''was a file'')"
    by (simp add: ex_defs ex_fs_filedir_def model_defs)
  from cleanup_keeps_file_whatever_the_source [OF a c k s] a c k d e show ?thesis
    by blast
qed

subsection \<open>The copy of the source\<close>

lemma view_Nil: "view t [] = Some (shallow t)"
  by (simp add: view_def)

lemma view_Cons_Dir:
  "view (Dir a es) (x # q) = (case map_of es x of None \<Rightarrow> None | Some c \<Rightarrow> view c q)"
  by (simp add: view_def split: option.split)

lemma view_Cons_leaf: "kind_of t \<noteq> IsDirectory \<Longrightarrow> view t (x # q) = None"
  by (cases t) (simp_all add: view_def)

lemma mkdirp_Dir: "mkdirp fresh p t = Inr t' \<Longrightarrow> \<exists>a es es'. t = Dir a es \<and> t' = Dir a es'"
  by (cases "(fresh, p, t)" rule: mkdirp.cases) (auto split: sum.splits if_splits)

lemma view_mkdirp:
  "mkdirp fresh p t = Inr t' \<Longrightarrow>
   view t' q = (if prefix q p \<and> view t q = None then Some (IsDirectory, fresh, None) else view t q)"
proof (induction fresh p t arbitrary: t' q rule: mkdirp.induct)
  case (1 fresh a es)
  then show ?case by (auto simp: view_Nil)
next
  case (4 fresh x p a es)
  let ?c0 = "case map_of es x of None \<Rightarrow> Dir fresh [] | Some c \<Rightarrow> c"
  from "4.prems" obtain c' where c': "mkdirp fresh p ?c0 = Inr c'"
    and t': "t' = Dir a (AList.update x c' es)"
    and ok: "\<not> (map_of es x = None \<and> \<not> writable a)"
    by (auto split: sum.splits if_splits)
  show ?case
  proof (cases q)
    case Nil
    then show ?thesis by (simp add: t' view_Nil shallow_def)
  next
    case (Cons y q')
    show ?thesis
    proof (cases "y = x")
      case False
      then show ?thesis
        by (simp add: Cons t' view_Cons_Dir update_conv')
    next
      case True
      have v: "view t' (x # q') = view c' q'"
        by (simp add: t' view_Cons_Dir update_conv')
      from "4.IH" [OF ok c'] have ih: "view c' q'
          = (if prefix q' p \<and> view ?c0 q' = None then Some (IsDirectory, fresh, None)
             else view ?c0 q')" .
      show ?thesis
      proof (cases "map_of es x")
        case None
        then have "view ?c0 q' = (if q' = [] then Some (IsDirectory, fresh, None) else None)"
          by (cases q') (simp_all add: view_Nil shallow_def view_Cons_Dir)
        with ih None show ?thesis
          by (auto simp: v Cons True view_Cons_Dir)
      next
        case (Some c)
        with ih show ?thesis
          by (simp add: v Cons True view_Cons_Dir)
      qed
    qed
  qed
qed simp_all

lemma view_put_Some:
  "lookup t (butlast p) = Some (Dir a es) \<Longrightarrow> p \<noteq> [] \<Longrightarrow>
   view (put p (Some m) t) q = (if prefix p q then view m (drop (length p) q) else view t q)"
proof (cases "prefix p q")
  case True
  assume "lookup t (butlast p) = Some (Dir a es)" "p \<noteq> []"
  from True obtain r where "q = p @ r" by (auto simp: prefix_def)
  with lookup_put_Some [OF \<open>lookup t (butlast p) = Some (Dir a es)\<close> \<open>p \<noteq> []\<close>, of m r]
  show ?thesis by (simp add: view_def)
next
  case False
  show ?thesis
  proof (cases "prefix q p")
    case True
    with False have "strict_prefix q p" by (auto simp: strict_prefix_def)
    with False show ?thesis by (simp add: view_put_strict_prefix)
  next
    case nq: False
    with False show ?thesis by (simp add: view_def lookup_put_apart)
  qed
qed

lemma view_set_attrs_below: "r \<noteq> [] \<Longrightarrow> view (set_attrs a n) r = view n r"
  by (cases n; cases r) (simp_all add: view_def)

lemma entry_at_utimes:
  assumes "fs_utimes fs p a m = Inr fs'"
  shows "now fs' = now fs"
    and "entry_at fs' q =
      (if q = p
       then map_option (restamp a m) (entry_at fs p)
       else entry_at fs q)"
proof -
  from assms obtain n where n: "lookup (root fs) p = Some n"
    and fs': "fs' = fs\<lparr>root := put p
        (Some (set_attrs ((attrs_of n)\<lparr>atimeNs := utimes_ns a, mtimeNs := utimes_ns m\<rparr>) n)) (root fs)\<rparr>"
    by (auto simp: fs_utimes_def split: option.splits)
  show "now fs' = now fs" by (simp add: fs')
  let ?n' = "set_attrs ((attrs_of n)\<lparr>atimeNs := utimes_ns a, mtimeNs := utimes_ns m\<rparr>) n"
  have sh: "shallow ?n' = (kind_of n, (attrs_of n)\<lparr>atimeNs := utimes_ns a, mtimeNs := utimes_ns m\<rparr>, bytes_of n)"
    by (cases n) (simp_all add: shallow_def)
  show "entry_at fs' q =
      (if q = p
       then map_option (restamp a m) (entry_at fs p)
       else entry_at fs q)"
  proof (cases "p = []")
    case True
    with n have "root fs = n" by simp
    then show ?thesis
      using True sh
      by (cases q) (auto simp: fs' entry_at_def view_Nil shallow_def view_set_attrs_below restamp_def)
  next
    case False
    from lookup_dirname [OF n False] obtain a' es where
      par: "lookup (root fs) (butlast p) = Some (Dir a' es)"
      by (auto simp: dirname_def)
    have "view (put p (Some ?n') (root fs)) q
        = (if prefix p q then view ?n' (drop (length p) q) else view (root fs) q)"
      using par False by (rule view_put_Some)
    moreover have "view ?n' (drop (length p) q) = view (root fs) q" if "prefix p q" "q \<noteq> p"
    proof -
      from that obtain r where r: "q = p @ r" "r \<noteq> []" by (auto simp: prefix_def)
      then show ?thesis
        using n by (simp add: view_set_attrs_below) (simp add: view_def lookup_append)
    qed
    ultimately show ?thesis
      using n sh by (auto simp: fs' entry_at_def view_Nil view_def shallow_def restamp_def)
  qed
qed

lemma canRead_entry: "canRead fs p = (\<exists>k a b. entry_at fs p = Some (k, a, b) \<and> readable a)"
  by (auto simp: canRead_def pathExists_iff fs_access_def entry_at_def view_def shallow_def
      split: option.splits)

lemma fs_stat_entry:
  "fs_stat fs p = (case entry_at fs p of None \<Rightarrow> Inl ENOENT
     | Some e \<Rightarrow> Inr \<lparr> st_kind = fst e, atimeMs = ms_of_ns (atimeNs (fst (snd e))),
         mtimeMs = ms_of_ns (mtimeNs (fst (snd e))) \<rparr>)"
  by (simp add: fs_stat_def entry_at_def view_def shallow_def stats_of_def split: option.split)

text \<open>What \<open>ensureDir\<close> does, in terms of the entries.\<close>

lemma entry_at_mkdir:
  assumes "fs_mkdir fs p = Inr fs'"
  shows "now fs' = now fs"
    and "entry_at fs' q = (if prefix q p \<and> entry_at fs q = None
          then Some (IsDirectory, fresh_attrs fs, None) else entry_at fs q)"
  using assms view_mkdirp [of "fresh_attrs fs" p "root fs" _ q]
  by (auto simp: fs_mkdir_def entry_at_def split: sum.splits)

lemma kind_at_mkdir:
  assumes "fs_mkdir fs p = Inr fs'"
  shows "kind_at fs' p = Some IsDirectory"
proof -
  from assms obtain t' where t': "mkdirp (fresh_attrs fs) p (root fs) = Inr t'" "fs' = fs\<lparr>root := t'\<rparr>"
    by (auto simp: fs_mkdir_def split: sum.splits)
  have "mkdirp fresh p t = Inr t' \<Longrightarrow> \<exists>a es. lookup t' p = Some (Dir a es)" for fresh t t'
  proof (induction fresh p t arbitrary: t' rule: mkdirp.induct)
    case (4 fresh x p a es)
    then show ?case by (auto split: sum.splits if_splits simp: update_conv')
  qed auto
  from this [OF t'(1)] show ?thesis
    by (auto simp: kind_at_def t'(2))
qed


lemma ensureDir_result:
  assumes "ensureDir fs t = Inr fs'"
  shows "now fs' = now fs"
    and "dir_ok fs' t"
    and "entry_at fs' q = (if prefix q t \<and> entry_at fs q = None
          then Some (IsDirectory, fresh_attrs fs, None) else entry_at fs q)"
proof -
  show "now fs' = now fs"
    using assms entry_at_mkdir(1) by (auto simp: ensureDir_def split: if_splits)
  show "dir_ok fs' t"
    using assms kind_at_mkdir by (auto simp: ensureDir_def dir_ok_def split: if_splits)
  show "entry_at fs' q = (if prefix q t \<and> entry_at fs q = None
          then Some (IsDirectory, fresh_attrs fs, None) else entry_at fs q)"
  proof (cases "canRead fs t")
    case True
    with assms have "fs' = fs" by (simp add: ensureDir_def)
    moreover from True have "entry_at fs t \<noteq> None" by (auto simp: canRead_entry)
    then have "entry_at fs q \<noteq> None" if "prefix q t"
      using that lookup_prefix_Some [of "root fs" t _ q]
      by (auto simp: entry_at_def view_def)
    ultimately show ?thesis by auto
  next
    case False
    with assms have "fs_mkdir fs t = Inr fs'" by (simp add: ensureDir_def)
    then show ?thesis by (rule entry_at_mkdir(2))
  qed
qed

lemma entry_at_fs_copyFile:
  assumes c: "fs_copyFile fs s t = Inr fs'" and ne: "s \<noteq> t"
  obtains sn bytes where "lookup (root fs) s = Some sn" "kind_of sn \<noteq> IsDirectory"
    "bytes_of sn = Some bytes" "now fs' = now fs"
    "\<forall>q. entry_at fs' q =
       (if q = t then Some (IsFile, (attrs_of sn)\<lparr>atimeNs := now fs, mtimeNs := now fs\<rparr>, Some bytes)
        else entry_at fs q)"
proof -
  from c ne obtain sn bytes d where
    sn: "lookup (root fs) s = Some sn" "kind_of sn \<noteq> IsDirectory" "bytes_of sn = Some bytes"
    and t: "t \<noteq> []"
    and d: "lookup (root fs) (dirname t) = Some d" "kind_of d = IsDirectory"
    and tg: "lookup (root fs) t = None \<or> (\<exists>a c. lookup (root fs) t = Some (File a c))"
    and fs': "fs' = fs\<lparr>root := put t
        (Some (File ((attrs_of sn)\<lparr>atimeNs := now fs, mtimeNs := now fs\<rparr>) bytes)) (root fs)\<rparr>"
    by (auto simp: fs_copyFile_def split: option.splits if_splits node.splits)
  let ?m = "File ((attrs_of sn)\<lparr>atimeNs := now fs, mtimeNs := now fs\<rparr>) bytes"
  from d obtain a es where par: "lookup (root fs) (butlast t) = Some (Dir a es)"
    by (cases d) (auto simp: dirname_def)
  have below: "view (root fs) q = None" if "strict_prefix t q" for q
  proof (rule ccontr)
    assume "view (root fs) q \<noteq> None"
    then obtain n where "lookup (root fs) q = Some n" by (auto simp: view_def)
    from lookup_strict_prefix_Dir [OF this that] tg show False by auto
  qed
  have "entry_at fs' q = (if q = t then Some (IsFile, (attrs_of sn)\<lparr>atimeNs := now fs, mtimeNs := now fs\<rparr>, Some bytes)
        else entry_at fs q)" for q
  proof -
    have "view (put t (Some ?m) (root fs)) q
        = (if prefix t q then view ?m (drop (length t) q) else view (root fs) q)"
      using par t by (rule view_put_Some)
    moreover have "view ?m (drop (length t) q) = None" if "prefix t q" "q \<noteq> t"
    proof -
      from that obtain x r where "q = t @ x # r"
        by (auto simp: prefix_def) (metis list.exhaust)
      then show ?thesis by (simp add: view_def)
    qed
    moreover have "view (root fs) q = None" if "prefix t q" "q \<noteq> t"
      using that below by (simp add: strict_prefix_def)
    ultimately show ?thesis
      by (auto simp: fs' entry_at_def view_Nil shallow_def)
  qed
  with sn show thesis
    using that fs' by simp
qed


lemma apart_distinct: "apart i out \<Longrightarrow> i @ r \<noteq> out @ r'"
  using apart_source [of i out r] by (metis prefixI)

lemma copyFile_result:
  assumes c: "copyFile fs s t = Inr fs'"
    and t: "t \<noteq> []"
    and par: "entry_at fs (dirname t) \<noteq> None"
    and ne: "s \<noteq> t"
  shows "now fs' = now fs"
    and "q \<noteq> t \<Longrightarrow> entry_at fs' q = entry_at fs q"
    and "entry_at fs s \<noteq> None"
    and "file_ok fs' s t"
    and "entry_at fs' t = entry_at fs t
       \<or> (\<exists>k a bytes si. entry_at fs s = Some (k, a, bytes) \<and> fs_stat fs s = Inr si
            \<and> entry_at fs' t
                = Some (IsFile, a\<lparr>atimeNs := utimes_ns (atime si), mtimeNs := utimes_ns (mtime si)\<rparr>, bytes))"
proof -
  from c obtain fs1 where e: "ensureDir fs (dirname t) = Inr fs1"
    by (auto simp: copyFile_def split: sum.splits)
  have pre: "entry_at fs q \<noteq> None" if "prefix q (dirname t)" for q
    using par that lookup_prefix_Some [of "root fs" "dirname t" _ q]
    by (auto simp: entry_at_def view_def)
  have v1: "entry_at fs1 q = entry_at fs q" for q
    using ensureDir_result(3) [OF e, of q] pre by auto
  have n1: "now fs1 = now fs"
    using e by (rule ensureDir_result(1))
  have st1: "fs_stat fs1 p = fs_stat fs p" for p
    by (simp add: fs_stat_entry v1)
  have pe1: "pathExists fs1 p = pathExists fs p" for p
    by (simp add: pathExists_entry v1)
  let ?stamped = "entry_at fs' t = entry_at fs t
       \<or> (\<exists>k a bytes si. entry_at fs s = Some (k, a, bytes) \<and> fs_stat fs s = Inr si
            \<and> entry_at fs' t
                = Some (IsFile, a\<lparr>atimeNs := utimes_ns (atime si), mtimeNs := utimes_ns (mtime si)\<rparr>, bytes))"
  show "now fs' = now fs"
    and "q \<noteq> t \<Longrightarrow> entry_at fs' q = entry_at fs q"
    and "entry_at fs s \<noteq> None"
    and "file_ok fs' s t"
    and ?stamped
  proof -
    let ?test = "if pathExists fs1 t
        then (case fs_stat fs1 s of
                Inl e \<Rightarrow> Inl e
              | Inr sourceInfo \<Rightarrow>
                  (case fs_stat fs1 t of
                     Inl e \<Rightarrow> Inl e
                   | Inr targetInfo \<Rightarrow> Inr (delta sourceInfo targetInfo = 0)))
        else Inr False"
    from c e obtain b where b: "?test = Inr b"
      and rest: "(if b then Inr fs1
          else (case fs_copyFile fs1 s t of
                  Inl e \<Rightarrow> Inl e
                | Inr fs2 \<Rightarrow>
                    (case fs_stat fs2 s of
                       Inl e \<Rightarrow> Inl e
                     | Inr sourceInfo \<Rightarrow>
                         fs_utimes fs2 t (atime sourceInfo) (mtime sourceInfo)))) = Inr fs'"
      unfolding copyFile_def by (cases ?test) (simp_all split: bool.splits)
    consider (skip) si ti where "fs_stat fs s = Inr si" "fs_stat fs t = Inr ti" "delta si ti = 0"
        "fs' = fs1"
      | (copy) fs2 si where "fs_copyFile fs1 s t = Inr fs2" "fs_stat fs2 s = Inr si"
        "fs_utimes fs2 t (atime si) (mtime si) = Inr fs'"
    proof (cases b)
      case True
      with b have "pathExists fs1 t"
        by (auto split: if_splits)
      with b True obtain si ti where x: "fs_stat fs1 s = Inr si" "fs_stat fs1 t = Inr ti"
        "delta si ti = 0"
        by (auto split: sum.splits)
      from rest True have "fs' = fs1" by simp
      with x [unfolded st1] show ?thesis by (rule skip)
    next
      case False
      with rest obtain fs2 si where "fs_copyFile fs1 s t = Inr fs2" "fs_stat fs2 s = Inr si"
        "fs_utimes fs2 t (atime si) (mtime si) = Inr fs'"
        by (auto split: sum.splits)
      with copy show ?thesis by blast
    qed
    then have "now fs' = now fs \<and> (q \<noteq> t \<longrightarrow> entry_at fs' q = entry_at fs q)
        \<and> entry_at fs s \<noteq> None \<and> file_ok fs' s t \<and> ?stamped"
    proof cases
      case skip
      then show ?thesis
        using n1 v1 t by (auto simp: file_ok_def st1 fs_stat_entry split: option.splits)
    next
      case copy
      from entry_at_fs_copyFile [OF copy(1) ne] obtain sn bytes where
        sn: "lookup (root fs1) s = Some sn" "bytes_of sn = Some bytes" "now fs2 = now fs1"
        and snd: "kind_of sn \<noteq> IsDirectory"
        and v2: "\<forall>q. entry_at fs2 q =
          (if q = t then Some (IsFile, (attrs_of sn)\<lparr>atimeNs := now fs1, mtimeNs := now fs1\<rparr>, Some bytes)
           else entry_at fs1 q)"
        by blast
      note u = entry_at_utimes [OF copy(3)]
      have es: "entry_at fs' s = entry_at fs s"
        using u(2) [of s] v2 ne by (simp add: v1)
      have "entry_at fs1 s \<noteq> None"
        using sn(1) by (simp add: entry_at_def view_def)
      then have src: "entry_at fs s \<noteq> None"
        by (simp add: v1)
      have "entry_at fs2 s = entry_at fs1 s"
        using v2 ne by simp
      then have "fs_stat fs2 s = fs_stat fs1 s"
        by (simp add: fs_stat_entry)
      also have "\<dots> = Inr (stats_of sn)"
        using sn(1) by (simp add: fs_stat_def)
      finally have si: "si = stats_of sn"
        using copy(2) by simp
      have ss: "fs_stat fs s = Inr si"
        using \<open>fs_stat fs1 s = Inr (stats_of sn)\<close> by (simp add: st1 si)
      have et: "entry_at fs' t
          = Some (IsFile, (attrs_of sn)\<lparr>atimeNs := utimes_ns (atime si), mtimeNs := utimes_ns (mtime si)\<rparr>,
              Some bytes)"
        using u(2) [of t] v2 by (simp add: restamp_def)
      have e0: "entry_at fs s = Some (kind_of sn, attrs_of sn, Some bytes)"
        using sn(1,2) v1 [of s, symmetric] by (simp add: entry_at_def view_def shallow_def)
      have "file_ok fs' s t"
      proof -
        have "fs_stat fs' s = Inr si"
          using es ss by (simp add: fs_stat_entry)
        moreover have "\<exists>ti. fs_stat fs' t = Inr ti"
          using et by (simp add: fs_stat_entry)
        moreover have "entry_at fs' s = Some (kind_of sn, attrs_of sn, Some bytes)"
          using es e0 by simp
        ultimately show ?thesis
          using t et snd by (auto simp: file_ok_def)
      qed
      moreover have "entry_at fs' q = entry_at fs q" if "q \<noteq> t"
        using u(2) [of q] v2 that by (simp add: v1)
      moreover from e0 et ss have ?stamped
        by blast
      ultimately show ?thesis
        using u(1) sn(3) n1 src by simp
    qed
    then show "now fs' = now fs"
      and "q \<noteq> t \<Longrightarrow> entry_at fs' q = entry_at fs q"
      and "entry_at fs s \<noteq> None"
      and "file_ok fs' s t"
      and ?stamped
      by simp_all
  qed
qed

lemma copied_in_refl: "copied_in this b X fs fs"
  by (simp add: copied_in_def)

lemma copied_in_mono: "copied_in this b X fs fs' \<Longrightarrow> X \<subseteq> Y \<Longrightarrow> copied_in this b Y fs fs'"
  unfolding copied_in_def by blast

lemma copied_in_source:
  assumes "apart (naive_inPath this) (naive_outPath this)" and "copied_in this b X fs fs'"
  shows "entry_at fs' (naive_inPath this @ r) = entry_at fs (naive_inPath this @ r)"
proof (rule ccontr)
  assume "entry_at fs' (naive_inPath this @ r) \<noteq> entry_at fs (naive_inPath this @ r)"
  with assms(2) obtain x r' where "naive_inPath this @ r = naive_outPath this @ b @ [x] @ r'"
    unfolding copied_in_def by blast
  with apart_distinct [OF assms(1)] show False by blast
qed

lemma copied_in_outside:
  assumes "copied_in this b X fs fs'" and "\<not> prefix (naive_outPath this @ b) q \<or> q = naive_outPath this @ b"
  shows "entry_at fs' q = entry_at fs q"
proof (rule ccontr)
  assume "entry_at fs' q \<noteq> entry_at fs q"
  with assms(1) obtain x r where q: "q = naive_outPath this @ b @ [x] @ r"
    unfolding copied_in_def by blast
  then have "prefix (naive_outPath this @ b) q" "q \<noteq> naive_outPath this @ b"
    by simp_all
  with assms(2) show False by simp
qed

lemma copied_in_compose:
  assumes ap: "apart (naive_inPath this) (naive_outPath this)"
    and h: "copied_in this b X fs fs1"
    and t: "copied_in this b Y fs1 fs'"
  shows "copied_in this b (X \<union> Y) fs fs'"
proof -
  have src: "entry_at fs1 (naive_inPath this @ r) = entry_at fs (naive_inPath this @ r)" for r
    using ap h by (rule copied_in_source)
  have "entry_at fs' q = entry_at fs q
      \<or> (\<exists>x\<in>X \<union> Y. \<exists>r. q = naive_outPath this @ b @ [x] @ r
            \<and> entry_at fs (naive_inPath this @ b @ [x] @ r) \<noteq> None)" for q
  proof -
    from t have "entry_at fs' q = entry_at fs1 q
        \<or> (\<exists>x\<in>Y. \<exists>r. q = naive_outPath this @ b @ [x] @ r
              \<and> entry_at fs1 (naive_inPath this @ b @ [x] @ r) \<noteq> None)"
      unfolding copied_in_def by blast
    moreover from h have "entry_at fs1 q = entry_at fs q
        \<or> (\<exists>x\<in>X. \<exists>r. q = naive_outPath this @ b @ [x] @ r
              \<and> entry_at fs (naive_inPath this @ b @ [x] @ r) \<noteq> None)"
      unfolding copied_in_def by blast
    ultimately show ?thesis
      unfolding src by auto
  qed
  moreover from h t have "now fs' = now fs"
    by (simp add: copied_in_def)
  moreover from h t have "\<forall>q. entry_at fs q \<noteq> None \<longrightarrow> entry_at fs' q \<noteq> None"
    by (simp add: copied_in_def)
  ultimately show ?thesis
    unfolding copied_in_def by blast
qed

lemma copied_in_deeper:
  assumes "copied_in this (b @ [x]) X fs fs'"
  shows "copied_in this b {x} fs fs'"
  using assms unfolding copied_in_def
  by (auto simp: append.assoc)

lemma dir_ok_cong: "entry_at fs' t = entry_at fs t \<Longrightarrow> dir_ok fs' t = dir_ok fs t"
  by (simp add: dir_ok_def canRead_entry kind_at_entry)

lemma file_ok_cong:
  "entry_at fs' s = entry_at fs s \<Longrightarrow> entry_at fs' t = entry_at fs t \<Longrightarrow>
   file_ok fs' s t = file_ok fs s t"
proof -
  assume "entry_at fs' s = entry_at fs s" "entry_at fs' t = entry_at fs t"
  then show ?thesis
    unfolding file_ok_def by (simp only: fs_stat_entry)
qed

lemma settled_at_cong:
  "entry_at fs' (naive_inPath this @ r) = entry_at fs (naive_inPath this @ r) \<Longrightarrow>
   entry_at fs' (naive_outPath this @ r) = entry_at fs (naive_outPath this @ r) \<Longrightarrow>
   settled_at this fs' r = settled_at this fs r"
proof -
  assume i: "entry_at fs' (naive_inPath this @ r) = entry_at fs (naive_inPath this @ r)"
    and o: "entry_at fs' (naive_outPath this @ r) = entry_at fs (naive_outPath this @ r)"
  have "kind_at fs' (naive_inPath this @ r) = kind_at fs (naive_inPath this @ r)"
    by (simp add: kind_at_entry i)
  moreover have "dir_ok fs' (naive_outPath this @ r) = dir_ok fs (naive_outPath this @ r)"
    using o by (rule dir_ok_cong)
  moreover have "file_ok fs' (naive_inPath this @ r) (naive_outPath this @ r)
      = file_ok fs (naive_inPath this @ r) (naive_outPath this @ r)"
    using i o by (rule file_ok_cong)
  ultimately show ?thesis
    unfolding settled_at_def by (simp only:)
qed

lemma settled_at_kept:
  assumes ap: "apart (naive_inPath this) (naive_outPath this)"
    and c: "copied_in this b Y fs fs'"
    and x: "x \<notin> Y"
    and s: "settled_at this fs (b @ [x] @ r)"
  shows "settled_at this fs' (b @ [x] @ r)"
proof -
  have "entry_at fs' (naive_outPath this @ b @ [x] @ r) = entry_at fs (naive_outPath this @ b @ [x] @ r)"
  proof -
    have "\<not> (\<exists>y\<in>Y. \<exists>r'. naive_outPath this @ b @ [x] @ r = naive_outPath this @ b @ [y] @ r')"
      using x by auto
    with c show ?thesis unfolding copied_in_def by blast
  qed
  moreover have "entry_at fs' (naive_inPath this @ b @ [x] @ r) = entry_at fs (naive_inPath this @ b @ [x] @ r)"
    using ap c by (rule copied_in_source)
  ultimately show ?thesis
    using s settled_at_cong by blast
qed

lemma entry_prefix_exists:
  "entry_at fs p \<noteq> None \<Longrightarrow> prefix q p \<Longrightarrow> entry_at fs q \<noteq> None"
  using lookup_prefix_Some [of "root fs" p _ q] by (auto simp: entry_at_def view_def)

lemma kind_at_None: "kind_at fs p = None \<longleftrightarrow> entry_at fs p = None"
  by (simp add: kind_at_entry)

lemma copyFile_copied:
  assumes ap: "apart (naive_inPath this) (naive_outPath this)"
    and c: "copyFile fs (naive_inPath this @ b @ [x]) (naive_outPath this @ b @ [x]) = Inr fs1"
    and par: "entry_at fs (naive_outPath this @ b) \<noteq> None"
    and nd: "kind_at fs (naive_inPath this @ b @ [x]) \<noteq> Some IsDirectory"
  shows "copied_in this b {x} fs fs1" and "settled_at this fs1 (b @ [x] @ r)"
proof -
  let ?s = "naive_inPath this @ b @ [x]" and ?t = "naive_outPath this @ b @ [x]"
  have t: "?t \<noteq> []" by simp
  have dn: "entry_at fs (dirname ?t) \<noteq> None"
    using par by (simp add: dirname_def butlast_append)
  have ne: "?s \<noteq> ?t"
    using apart_distinct [OF ap] by blast
  note r = copyFile_result [OF c t dn ne]
  have ex: "entry_at fs1 ?t \<noteq> None"
    using r(4) by (auto simp: file_ok_def fs_stat_entry split: option.splits)
  show "copied_in this b {x} fs fs1"
    unfolding copied_in_def
  proof (intro conjI allI impI)
    show "now fs1 = now fs" by (rule r(1))
    show "entry_at fs1 q = entry_at fs q
        \<or> (\<exists>x\<in>{x}. \<exists>r. q = naive_outPath this @ b @ [x] @ r
              \<and> entry_at fs (naive_inPath this @ b @ [x] @ r) \<noteq> None)" for q
      using r(2) [of q] r(3) by (cases "q = ?t") auto
    show "entry_at fs1 q \<noteq> None" if "entry_at fs q \<noteq> None" for q
      using r(2) [of q] ex that by (cases "q = ?t") auto
  qed
  have ks: "kind_at fs1 ?s = kind_at fs ?s"
    using r(2) [of ?s] ne by (simp add: kind_at_entry)
  show "settled_at this fs1 (b @ [x] @ r)"
  proof (cases r)
    case Nil
    with ks nd r(4) show ?thesis by (simp add: settled_at_def)
  next
    case (Cons y ys)
    from r(3) ks nd obtain k where k: "kind_at fs1 ?s = Some k" "k \<noteq> IsDirectory"
      by (auto simp: kind_at_entry)
    have "strict_prefix ?s (naive_inPath this @ b @ [x] @ r)"
      by (simp add: Cons strict_prefix_def)
    from nothing_below_non_directory [OF k this]
    show ?thesis by (simp add: settled_at_def kind_at_None)
  qed
qed

lemma ensureDir_copied:
  assumes e: "ensureDir fs (naive_outPath this @ b @ [x]) = Inr fs1"
    and par: "entry_at fs (naive_outPath this @ b) \<noteq> None"
    and src: "entry_at fs (naive_inPath this @ b @ [x]) \<noteq> None"
  shows "copied_in this b {x} fs fs1" and "dir_ok fs1 (naive_outPath this @ b @ [x])"
proof -
  let ?t = "naive_outPath this @ b @ [x]"
  note r = ensureDir_result [OF e]
  show "dir_ok fs1 ?t" by (rule r(2))
  have only: "q = ?t" if "prefix q ?t" "entry_at fs q = None" for q
  proof (rule ccontr)
    assume "q \<noteq> ?t"
    with that(1) have "prefix q (naive_outPath this @ b)"
      by (metis append.assoc prefix_snoc)
    with par that(2) entry_prefix_exists show False by blast
  qed
  show "copied_in this b {x} fs fs1"
    unfolding copied_in_def
  proof (intro conjI allI impI)
    show "now fs1 = now fs" by (rule r(1))
    show "entry_at fs1 q = entry_at fs q
        \<or> (\<exists>x\<in>{x}. \<exists>r. q = naive_outPath this @ b @ [x] @ r
              \<and> entry_at fs (naive_inPath this @ b @ [x] @ r) \<noteq> None)" for q
      using r(3) [of q] only [of q] src by (auto split: if_splits)
    show "entry_at fs1 q \<noteq> None" if "entry_at fs q \<noteq> None" for q
      using r(3) [of q] that by (auto split: if_splits)
  qed
qed

lemma apart_no_prefix: "apart i out \<Longrightarrow> \<not> prefix (i @ r) (out @ r')"
proof
  assume a: "apart i out" and p: "prefix (i @ r) (out @ r')"
  from p have "prefix i (out @ r')" by (rule append_prefixD)
  moreover have "prefix out (out @ r')" by simp
  ultimately have "prefix i out \<or> prefix out i" by (rule prefix_same_cases)
  with a show False by (simp add: apart_def)
qed

lemma readdir_exists: "fs_readdir fs p = Inr files \<Longrightarrow> kind_at fs p = Some IsDirectory"
  by (auto simp: fs_readdir_def kind_at_def split: option.splits node.splits if_splits)

lemma stat_kind: "fs_stat fs p = Inr st \<Longrightarrow> kind_at fs p = Some (st_kind st)"
  by (auto simp: fs_stat_def kind_at_def stats_of_def split: option.splits)

lemma copyDirectory_copied:
  assumes ap: "apart (naive_inPath this) (naive_outPath this)"
  shows "copyDirectory n fs source target = Some (Inr fs') \<Longrightarrow>
      source = naive_inPath this @ b @ [x] \<Longrightarrow> target = naive_outPath this @ b @ [x] \<Longrightarrow>
      entry_at fs (naive_outPath this @ b) \<noteq> None \<Longrightarrow>
      copied_in this b {x} fs fs' \<and> (\<forall>r. settled_at this fs' (b @ [x] @ r))"
    and "copyDirectory_entries n fs source target entries = Some (Inr fs') \<Longrightarrow>
      source = naive_inPath this @ b \<Longrightarrow> target = naive_outPath this @ b \<Longrightarrow>
      entry_at fs (naive_outPath this @ b) \<noteq> None \<Longrightarrow> distinct (map fst entries) \<Longrightarrow>
      copied_in this b (fst ` set entries) fs fs'
      \<and> (\<forall>y\<in>fst ` set entries. \<forall>r. settled_at this fs' (b @ [y] @ r))"
proof (induction n fs source target and n fs source target entries
    arbitrary: fs' b x and fs' b rule: copyDirectory_copyDirectory_entries.induct)
  case (1 fs source target)
  then show ?case by simp
next
  case (2 n fs source target)
  let ?s = "naive_inPath this @ b @ [x]" and ?t = "naive_outPath this @ b @ [x]"
  from "2.prems"(1) obtain fs1 entries where
    e: "ensureDir fs target = Inr fs1"
    and rd: "fs_readdir fs1 source = Inr entries"
    and loop: "copyDirectory_entries n fs1 source target entries = Some (Inr fs')"
    by (auto split: sum.splits)
  have s1: "kind_at fs1 ?s = Some IsDirectory"
    using rd by (simp add: readdir_exists "2.prems"(2))
  have "entry_at fs1 ?s = entry_at fs ?s"
    using ensureDir_result(3) [OF e, of ?s] apart_no_prefix [OF ap, of "b @ [x]" "b @ [x]"]
    by (auto simp: "2.prems"(3) split: if_splits)
  with s1 have src: "entry_at fs ?s \<noteq> None"
    by (auto simp: kind_at_entry)
  from ensureDir_copied [OF e [unfolded "2.prems"(3)] "2.prems"(4) src]
  have c1: "copied_in this b {x} fs fs1" and d1: "dir_ok fs1 ?t" .
  from d1 have t1: "entry_at fs1 ?t \<noteq> None"
    by (auto simp: dir_ok_def canRead_entry kind_at_entry)
  have ih: "copied_in this (b @ [x]) (fst ` set entries) fs1 fs'
      \<and> (\<forall>y\<in>fst ` set entries. \<forall>r. settled_at this fs' ((b @ [x]) @ [y] @ r))"
  proof (rule "2.IH" [OF e rd loop])
    show "source = naive_inPath this @ b @ [x]" by (rule "2.prems"(2))
    show "target = naive_outPath this @ b @ [x]" by (rule "2.prems"(3))
    show "entry_at fs1 (naive_outPath this @ b @ [x]) \<noteq> None" by (rule t1)
    show "distinct (map fst entries)" using rd by (rule readdir_distinct)
  qed
  then have c2: "copied_in this b {x} fs1 fs'"
    by (auto intro: copied_in_deeper)
  from copied_in_compose [OF ap c1 c2] have c: "copied_in this b {x} fs fs'"
    by simp
  have "settled_at this fs' (b @ [x] @ r)" for r
  proof (cases r)
    case Nil
    have "entry_at fs' ?t = entry_at fs1 ?t"
      using ih by (intro copied_in_outside [where b = "b @ [x]"]) auto
    then have "dir_ok fs' ?t"
      using d1 dir_ok_cong by blast
    moreover have "kind_at fs' ?s = Some IsDirectory"
      using s1 copied_in_source [OF ap c2, of "b @ [x]"] by (simp add: kind_at_entry)
    ultimately show ?thesis
      by (simp add: Nil settled_at_def)
  next
    case (Cons y ys)
    show ?thesis
    proof (cases "kind_at fs' (naive_inPath this @ b @ [x] @ r) = None")
      case True
      then show ?thesis by (simp add: settled_at_def)
    next
      case False
      then have "entry_at fs1 (naive_inPath this @ b @ [x] @ r) \<noteq> None"
        using copied_in_source [OF ap c2, of "b @ [x] @ r"] by (simp add: kind_at_entry)
      then have "entry_at fs1 (?s @ [y]) \<noteq> None"
        by (rule entry_prefix_exists) (simp add: Cons)
      then obtain k where "kind_at fs1 (source @ [y]) = Some k"
        by (auto simp: kind_at_entry "2.prems"(2))
      with rd have "(y, k) \<in> set entries"
        by (simp add: readdir_kinds)
      then have "y \<in> fst ` set entries" by force
      with ih have "settled_at this fs' ((b @ [x]) @ [y] @ ys)" by blast
      then show ?thesis by (simp add: Cons)
    qed
  qed
  with c show ?case by blast
next
  case (3 n fs source target)
  then show ?case by (simp add: copied_in_refl)
next
  case (4 n fs source target entry entries)
  obtain y k where entry: "entry = (y, k)" by (cases entry)
  let ?s = "naive_inPath this @ b @ [y]" and ?t = "naive_outPath this @ b @ [y]"
  have jn: "join source y = ?s" "join target y = ?t"
    by (simp_all add: join_def "4.prems"(2,3))
  from "4.prems"(1) obtain srcStat fs1 where
    st: "fs_stat fs ?s = Inr srcStat"
    and body: "(if isDirectory (st_kind srcStat) then copyDirectory n fs ?s ?t
               else Some (copyFile fs ?s ?t)) = Some (Inr fs1)"
    and rest: "copyDirectory_entries n fs1 source target entries = Some (Inr fs')"
    by (auto simp: entry jn Let_def split: sum.splits option.splits)
  have head: "copied_in this b {y} fs fs1 \<and> (\<forall>r. settled_at this fs1 (b @ [y] @ r))"
  proof (cases "isDirectory (st_kind srcStat)")
    case True
    show ?thesis
    proof (rule "4.IH"(1) [OF refl refl _ True])
      show "fs_stat fs (join source (fst entry)) = Inr srcStat"
        using st by (simp add: entry jn)
      show "copyDirectory n fs (join source (fst entry)) (join target (fst entry)) = Some (Inr fs1)"
        using body True by (simp add: entry jn)
      show "join source (fst entry) = naive_inPath this @ b @ [y]"
        by (simp add: entry jn)
      show "join target (fst entry) = naive_outPath this @ b @ [y]"
        by (simp add: entry jn)
      show "entry_at fs (naive_outPath this @ b) \<noteq> None"
        by (rule "4.prems"(4))
    qed
  next
    case False
    with body have c: "copyFile fs ?s ?t = Inr fs1" by simp
    from stat_kind [OF st] False have "kind_at fs ?s \<noteq> Some IsDirectory"
      by (simp add: isDirectory_def)
    from copyFile_copied [OF ap c "4.prems"(4) this] show ?thesis by blast
  qed
  then have c1: "copied_in this b {y} fs fs1" by blast
  have par1: "entry_at fs1 (naive_outPath this @ b) \<noteq> None"
    using c1 "4.prems"(4) by (simp add: copied_in_def)
  have tail: "copied_in this b (fst ` set entries) fs1 fs'
      \<and> (\<forall>z\<in>fst ` set entries. \<forall>r. settled_at this fs' (b @ [z] @ r))"
  proof (rule "4.IH"(2) [OF refl refl _ _ refl rest "4.prems"(2,3) par1])
    show "fs_stat fs (join source (fst entry)) = Inr srcStat"
      using st by (simp add: entry jn)
    show "(if isDirectory (st_kind srcStat)
           then copyDirectory n fs (join source (fst entry)) (join target (fst entry))
           else Some (copyFile fs (join source (fst entry)) (join target (fst entry))))
        = Some (Inr fs1)"
      using body by (simp add: entry jn cong: if_cong)
    show "distinct (map fst entries)"
      using "4.prems"(5) by simp
  qed
  then have c2: "copied_in this b (fst ` set entries) fs1 fs'" by blast
  have ny: "y \<notin> fst ` set entries"
    using "4.prems"(5) by (simp add: entry)
  have "copied_in this b (fst ` set (entry # entries)) fs fs'"
    using copied_in_compose [OF ap c1 c2] by (simp add: entry)
  moreover have "settled_at this fs' (b @ [y] @ r)" for r
    using settled_at_kept [OF ap c2 ny] head by blast
  ultimately show ?case
    using tail by (simp add: entry)
qed

lemma run_files_copied:
  assumes ap: "apart (naive_inPath this) (naive_outPath this)"
  shows "run_files n this fs files = Some (Inr fs') \<Longrightarrow>
      entry_at fs (naive_outPath this) \<noteq> None \<Longrightarrow> distinct (map fst files) \<Longrightarrow>
      (\<forall>x k. (x, k) \<in> set files \<longrightarrow> kind_at fs (naive_inPath this @ [x]) = Some k) \<Longrightarrow>
      copied_in this [] (fst ` set files) fs fs'
      \<and> (\<forall>x k. (x, k) \<in> set files \<longrightarrow> k \<noteq> IsOther \<longrightarrow> (\<forall>r. settled_at this fs' (x # r)))"
  using ap
proof (induction n this fs files arbitrary: fs' rule: run_files.induct)
  case (1 n this fs)
  then show ?case by (simp add: copied_in_refl)
next
  case (2 n this fs ent files)
  note ap = "2.prems"(5)
  obtain x k where ent: "ent = (x, k)" by (cases ent)
  let ?s = "naive_inPath this @ [x]" and ?t = "naive_outPath this @ [x]"
  let ?body = "if isDirectory k then copyDirectory n fs ?s ?t
               else if isFile k then Some (copyFile fs ?s ?t)
               else Some (Inr fs)"
  from "2.prems"(1) have "(case ?body of None \<Rightarrow> None | Some (Inl e) \<Rightarrow> Some (Inl e)
      | Some (Inr fs1) \<Rightarrow> run_files n this fs1 files) = Some (Inr fs')"
    by (simp add: ent join_def Let_def cong: if_cong)
  then obtain fs1 where body: "?body = Some (Inr fs1)"
    and rest: "run_files n this fs1 files = Some (Inr fs')"
    by (auto split: option.splits sum.splits)
  from "2.prems"(4) have k: "kind_at fs ?s = Some k"
    by (simp add: ent)
  have par: "entry_at fs (naive_outPath this @ []) \<noteq> None"
    using "2.prems"(2) by simp
  have head: "copied_in this [] {x} fs fs1 \<and> (k \<noteq> IsOther \<longrightarrow> (\<forall>r. settled_at this fs1 (x # r)))"
  proof (cases k)
    case IsDirectory
    with body have "copyDirectory n fs ?s ?t = Some (Inr fs1)"
      by (simp add: isDirectory_def)
    from copyDirectory_copied(1) [OF ap this, where b = "[]" and x = x] par show ?thesis
      by simp
  next
    case IsFile
    with body have c: "copyFile fs (naive_inPath this @ [] @ [x]) (naive_outPath this @ [] @ [x]) = Inr fs1"
      by (simp add: isDirectory_def isFile_def)
    have "kind_at fs (naive_inPath this @ [] @ [x]) \<noteq> Some IsDirectory"
      using k IsFile by simp
    from copyFile_copied [OF ap c par this] show ?thesis
      by simp
  next
    case IsOther
    with body show ?thesis
      by (simp add: isDirectory_def isFile_def copied_in_refl)
  qed
  then have c1: "copied_in this [] {x} fs fs1" by blast
  have tail: "copied_in this [] (fst ` set files) fs1 fs'
      \<and> (\<forall>y k'. (y, k') \<in> set files \<longrightarrow> k' \<noteq> IsOther \<longrightarrow> (\<forall>r. settled_at this fs' (y # r)))"
  proof (rule "2.IH" [OF refl refl _ refl rest])
    show "(if isDirectory (snd ent)
           then copyDirectory n fs (join (naive_inPath this) (fst ent)) (join (naive_outPath this) (fst ent))
           else if isFile (snd ent)
             then Some (copyFile fs (join (naive_inPath this) (fst ent)) (join (naive_outPath this) (fst ent)))
           else Some (Inr fs)) = Some (Inr fs1)"
      using body by (simp add: ent join_def cong: if_cong)
    show "entry_at fs1 (naive_outPath this) \<noteq> None"
      using c1 "2.prems"(2) by (simp add: copied_in_def)
    show "distinct (map fst files)"
      using "2.prems"(3) by simp
    show "\<forall>y k'. (y, k') \<in> set files \<longrightarrow> kind_at fs1 (naive_inPath this @ [y]) = Some k'"
      using "2.prems"(4) copied_in_source [OF ap c1] by (simp add: kind_at_entry)
    show "apart (naive_inPath this) (naive_outPath this)"
      by (rule ap)
  qed
  then have c2: "copied_in this [] (fst ` set files) fs1 fs'" by blast
  have nx: "x \<notin> fst ` set files"
    using "2.prems"(3) by (simp add: ent)
  have "copied_in this [] (fst ` set (ent # files)) fs fs'"
    using copied_in_compose [OF ap c1 c2] by (simp add: ent)
  moreover have "settled_at this fs' (x # r)" if "k \<noteq> IsOther" for r
    using settled_at_kept [OF ap c2 nx, where r = r] head that by simp
  ultimately show ?case
    using tail by (auto simp: ent)
qed

lemma cleaned_source:
  assumes "apart (naive_inPath this) (naive_outPath this)" and "cleaned this base X fs fs'"
  shows "entry_at fs' (naive_inPath this @ r) = entry_at fs (naive_inPath this @ r)"
  using assms(2) apart_source [OF assms(1)] by (simp add: cleaned_def)

lemma not_doomed_root: "\<not> doomed this fs base X []"
  by (auto simp: doomed_def)

lemma NaiveSync_run_phases:
  assumes ap: "apart (naive_inPath this) (naive_outPath this)"
    and run: "NaiveSync_run n this fs = Some (Inr fs')"
  obtains fs1 files where
    "cleanupOutPath n this fs (naive_outPath this) = Some (Inr fs1)"
    "fs_readdir fs1 (naive_inPath this) = Inr files"
    "run_files n this fs1 files = Some (Inr fs')"
    "cleaned this [] UNIV fs fs1"
    "copied_in this [] (fst ` set files) fs1 fs'"
    "\<forall>x k. (x, k) \<in> set files \<longrightarrow> k \<noteq> IsOther \<longrightarrow> (\<forall>r. settled_at this fs' (x # r))"
    "kind_at fs1 (naive_outPath this) = Some IsDirectory"
proof -
  from run obtain fs1 files where
    cl: "cleanupOutPath n this fs (naive_outPath this) = Some (Inr fs1)"
    and rd: "fs_readdir fs1 (naive_inPath this) = Inr files"
    and rf: "run_files n this fs1 files = Some (Inr fs')"
    by (auto simp: NaiveSync_run_def split: option.splits sum.splits)
  from cleanup_cleaned(1) [OF ap cl, of "[]"] have c: "cleaned this [] UNIV fs fs1"
    by simp
  have "kind_at fs (naive_outPath this) = Some IsDirectory"
  proof (cases n)
    case 0
    with cl show ?thesis by simp
  next
    case (Suc m)
    with cl obtain fl where "fs_readdir fs (naive_outPath this) = Inr fl"
      by (auto split: sum.splits)
    then show ?thesis by (rule readdir_exists)
  qed
  moreover from c have "entry_at fs1 (naive_outPath this @ []) = entry_at fs (naive_outPath this @ [])"
    unfolding cleaned_def using not_doomed_root by metis
  ultimately have o1: "kind_at fs1 (naive_outPath this) = Some IsDirectory"
    by (simp add: kind_at_entry)
  then have ex: "entry_at fs1 (naive_outPath this) \<noteq> None"
    by (auto simp: kind_at_entry)
  from run_files_copied [OF ap rf ex readdir_distinct [OF rd]] readdir_kinds [OF rd]
  have "copied_in this [] (fst ` set files) fs1 fs'
      \<and> (\<forall>x k. (x, k) \<in> set files \<longrightarrow> k \<noteq> IsOther \<longrightarrow> (\<forall>r. settled_at this fs' (x # r)))"
    by simp
  with cl rd rf c o1 that show thesis by blast
qed

text \<open>
  Claim C1. \<open>NaiveSync.run\<close> is the clean-up followed by the copy loop, which starts
  from the file system the finished clean-up has left. So, for a source and a
  destination folder that lie apart: when \<open>run\<close> has returned, a file \<open>X\<close> of the
  destination whose mapped source path does not exist is absent, and it is absent
  already when the first copy starts; and every file \<open>Y\<close> of the source has an entry at
  its mapped destination path. The file system is arbitrary, and with it the order
  in which its directories list their entries.
\<close>

theorem cleanup_precedes_copy:
  assumes "apart (naive_inPath this) (naive_outPath this)"
    and "NaiveSync_run n this fs = Some (Inr fs')"
    and "rX \<noteq> []"
    and "kind_at fs (naive_outPath this @ rX) = Some IsFile"
    and "\<not> pathExists fs (naive_inPath this @ rX)"
    and "kind_at fs (naive_inPath this @ rY) = Some IsFile"
  shows "(\<exists>fs1 files.
            cleanupOutPath n this fs (naive_outPath this) = Some (Inr fs1)
          \<and> entry_at fs1 (naive_outPath this @ rX) = None
          \<and> fs_readdir fs1 (naive_inPath this) = Inr files
          \<and> run_files n this fs1 files = Some (Inr fs'))
    \<and> entry_at fs' (naive_outPath this @ rX) = None
    \<and> pathExists fs' (naive_outPath this @ rY)"
proof (rule NaiveSync_run_phases [OF assms(1,2)])
  note ap = assms(1)
  fix fs1 files
  assume cl: "cleanupOutPath n this fs (naive_outPath this) = Some (Inr fs1)"
    and rd: "fs_readdir fs1 (naive_inPath this) = Inr files"
    and rf: "run_files n this fs1 files = Some (Inr fs')"
    and c: "cleaned this [] UNIV fs fs1"
    and cp: "copied_in this [] (fst ` set files) fs1 fs'"
    and st: "\<forall>x k. (x, k) \<in> set files \<longrightarrow> k \<noteq> IsOther \<longrightarrow> (\<forall>r. settled_at this fs' (x # r))"
  have src1: "entry_at fs1 (naive_inPath this @ r) = entry_at fs (naive_inPath this @ r)" for r
    using ap c by (rule cleaned_source)
  have src': "entry_at fs' (naive_inPath this @ r) = entry_at fs1 (naive_inPath this @ r)" for r
    using ap cp by (rule copied_in_source)
  \<comment> \<open>the stale file is gone once the clean-up has returned\<close>
  from assms(3) obtain x xs where rX: "rX = x # xs" by (cases rX) auto
  have "stale this fs rX"
    using assms(3-5) by (simp add: stale_def)
  then have "doomed this fs [] UNIV rX"
    unfolding doomed_def rX by (intro exI [of _ "x # xs"] exI [of _ x]) simp
  with c have x1: "entry_at fs1 (naive_outPath this @ rX) = None"
    by (simp add: cleaned_def)
  \<comment> \<open>and the copy does not bring it back\<close>
  have x': "entry_at fs' (naive_outPath this @ rX) = None"
  proof (rule ccontr)
    assume "entry_at fs' (naive_outPath this @ rX) \<noteq> None"
    moreover from cp have "entry_at fs' (naive_outPath this @ rX) = entry_at fs1 (naive_outPath this @ rX)
        \<or> (\<exists>y\<in>fst ` set files. \<exists>r. naive_outPath this @ rX = naive_outPath this @ [] @ [y] @ r
              \<and> entry_at fs1 (naive_inPath this @ [] @ [y] @ r) \<noteq> None)"
      unfolding copied_in_def by blast
    ultimately obtain y r where "rX = [y] @ r"
      and "entry_at fs1 (naive_inPath this @ [] @ [y] @ r) \<noteq> None"
      using x1 by auto
    then have "entry_at fs1 (naive_inPath this @ rX) \<noteq> None" by simp
    with assms(5) show False by (simp add: src1 pathExists_entry)
  qed
  \<comment> \<open>the file of the source has a counterpart\<close>
  have y1: "kind_at fs1 (naive_inPath this @ rY) = Some IsFile"
    using assms(6) by (simp add: kind_at_entry src1)
  have "rY \<noteq> []"
    using readdir_exists [OF rd] y1 by auto
  then obtain y ys where rY: "rY = y # ys" by (cases rY) auto
  from y1 have "entry_at fs1 (naive_inPath this @ rY) \<noteq> None"
    by (auto simp: kind_at_entry)
  then have top: "entry_at fs1 (naive_inPath this @ [y]) \<noteq> None"
    by (rule entry_prefix_exists) (simp add: rY)
  then obtain k where k: "kind_at fs1 (naive_inPath this @ [y]) = Some k"
    by (auto simp: kind_at_entry)
  have "k \<noteq> IsOther"
  proof (cases ys)
    case Nil
    with k y1 show ?thesis by (simp add: rY)
  next
    case (Cons z zs)
    show ?thesis
    proof
      assume "k = IsOther"
      with k have "kind_at fs1 (naive_inPath this @ [y]) = Some IsOther" by simp
      moreover have "strict_prefix (naive_inPath this @ [y]) (naive_inPath this @ rY)"
        by (simp add: rY Cons strict_prefix_def)
      ultimately have "entry_at fs1 (naive_inPath this @ rY) = None"
        by (intro nothing_below_non_directory [where k = IsOther]) simp_all
      with y1 show False by (simp add: kind_at_entry)
    qed
  qed
  moreover from k rd have "(y, k) \<in> set files"
    by (simp add: readdir_kinds)
  ultimately have "settled_at this fs' (y # ys)"
    using st by blast
  moreover have "kind_at fs' (naive_inPath this @ rY) = Some IsFile"
    using y1 by (simp add: kind_at_entry src')
  ultimately have "file_ok fs' (naive_inPath this @ rY) (naive_outPath this @ rY)"
    by (simp add: settled_at_def rY)
  then have y': "pathExists fs' (naive_outPath this @ rY)"
    by (auto simp: file_ok_def pathExists_def split: sum.splits)
  from cl x1 rd rf x' y' show ?thesis by blast
qed

theorem cleanup_precedes_copy_witness:
  "apart (naive_inPath ex_naive) (naive_outPath ex_naive)
   \<and> NaiveSync_run 3 ex_naive ex_fs = Some (Inr ex_fs_synced)
   \<and> kind_at ex_fs (naive_outPath ex_naive @ [''stale.txt'']) = Some IsFile
   \<and> \<not> pathExists ex_fs (naive_inPath ex_naive @ [''stale.txt''])
   \<and> kind_at ex_fs (naive_inPath ex_naive @ [''sub'', ''b.txt'']) = Some IsFile
   \<and> entry_at ex_fs_synced (naive_outPath ex_naive @ [''stale.txt'']) = None
   \<and> pathExists ex_fs_synced (naive_outPath ex_naive @ [''sub'', ''b.txt''])"
proof -
  have a: "apart (naive_inPath ex_naive) (naive_outPath ex_naive)"
    by (simp add: apart_def ex_defs model_defs)
  have r: "NaiveSync_run 3 ex_naive ex_fs = Some (Inr ex_fs_synced)"
    by (simp add: ex_defs model_defs numeral_3_eq_3)
  have n: "[''stale.txt''] \<noteq> []"
    by simp
  have k: "kind_at ex_fs (naive_outPath ex_naive @ [''stale.txt'']) = Some IsFile"
    by (simp add: ex_defs model_defs)
  have s: "\<not> pathExists ex_fs (naive_inPath ex_naive @ [''stale.txt''])"
    by (simp add: ex_defs model_defs)
  have y: "kind_at ex_fs (naive_inPath ex_naive @ [''sub'', ''b.txt'']) = Some IsFile"
    by (simp add: ex_defs model_defs)
  from cleanup_precedes_copy [OF a r n k s y] a r k s y show ?thesis
    by blast
qed

subsection \<open>Running the initial synchronisation twice\<close>
















subsection \<open>Entries that are neither files nor directories\<close>

text \<open>
  Claim C7 holds for the loop of \<open>NaiveSync.run\<close>, which tests \<^verbatim>\<open>isDirectory()\<close>, then
  \<^verbatim>\<open>isFile()\<close>, and passes over every other entry. \<open>copyDirectory\<close> does not: its
  \<^verbatim>\<open>else\<close> sends everything that is not a directory to \<open>copyFile\<close>. A symbolic link
  to a regular file is skipped at the top level of the source, but inside the
  directory \<^verbatim>\<open>d\<close> it comes out as a regular file of the destination; a socket inside
  \<^verbatim>\<open>d\<close> makes the copy, and with it the whole run, end with an error.
\<close>

theorem copyDirectory_copies_special_entries:
  "(\<forall>n this fs x files. run_files n this fs ((x, IsOther) # files) = run_files n this fs files)
   \<and> kind_at ex_fs_link [''in'', ''l''] = Some IsOther
   \<and> kind_at ex_fs_link [''in'', ''d'', ''l''] = Some IsOther
   \<and> NaiveSync_run 3 ex_naive ex_fs_link = Some (Inr ex_fs_link_synced)
   \<and> entry_at ex_fs_link_synced [''out'', ''l''] = None
   \<and> entry_at ex_fs_link_synced [''out'', ''d'', ''l'']
       = Some (IsFile, ex_attrs 5000000, Some ''linked'')
   \<and> kind_at ex_fs_socket [''in'', ''d'', ''s''] = Some IsOther
   \<and> NaiveSync_run 3 ex_naive ex_fs_socket = Some (Inl ENXIO)"
proof -
  have "run_files n this fs ((x, IsOther) # files) = run_files n this fs files" for n this fs x files
    by (simp add: isDirectory_def isFile_def)
  moreover have "NaiveSync_run 3 ex_naive ex_fs_link = Some (Inr ex_fs_link_synced)"
    by (simp add: ex_defs ex_fs_link_def ex_fs_link_synced_def model_defs numeral_3_eq_3)
  moreover have "NaiveSync_run 3 ex_naive ex_fs_socket = Some (Inl ENXIO)"
    by (simp add: ex_defs ex_fs_socket_def model_defs numeral_3_eq_3)
  moreover have "kind_at ex_fs_link [''in'', ''l''] = Some IsOther"
    and "kind_at ex_fs_link [''in'', ''d'', ''l''] = Some IsOther"
    and "kind_at ex_fs_socket [''in'', ''d'', ''s''] = Some IsOther"
    by (simp_all add: ex_fs_link_def ex_fs_socket_def model_defs)
  moreover have "entry_at ex_fs_link_synced [''out'', ''l''] = None"
    and "entry_at ex_fs_link_synced [''out'', ''d'', ''l'']
       = Some (IsFile, ex_attrs 5000000, Some ''linked'')"
    by (simp_all add: ex_fs_link_synced_def model_defs)
  ultimately show ?thesis by blast
qed

end
